theory Spec2Isabelle
  imports Main "HOL-Library.Sublist"
begin

section \<open>Python values, exceptions and numbers\<close>

text \<open>
  The development embeds \<^verbatim>\<open>dbbench.py\<close> as it runs under Python 2.7, the interpreter the
  module is written for (\<^verbatim>\<open>csv.reader\<close> is handed a temporary file opened in binary mode, and
  \<^verbatim>\<open>subprocess.check_output\<close> exists from 2.7 on). Strings are byte strings, integers are
  unbounded, and every exception the code can raise is a value of \<open>py_error\<close>.
\<close>

datatype type_error =
    WrongArgCount nat   \<comment> \<open>\<^verbatim>\<open>__init__() takes exactly 5 arguments (n given)\<close>, self counted\<close>
  | JoinItem nat        \<comment> \<open>\<^verbatim>\<open>sequence item i: expected string\<close>\<close>
  | IntArgument         \<comment> \<open>\<^verbatim>\<open>int() argument must be a string or a number\<close>\<close>
  | ExecvArgument       \<comment> \<open>\<^verbatim>\<open>execv() arg 2 must contain only strings\<close>\<close>

datatype py_error =
    NameError string                          \<comment> \<open>a global name that is not defined\<close>
  | TypeError type_error
  | ValueError string                         \<comment> \<open>invalid literal for int(): the literal\<close>
  | OverflowError                             \<comment> \<open>long int too large to convert to float\<close>
  | ZeroDivisionError
  | CsvError string                           \<comment> \<open>\<^verbatim>\<open>_csv.Error\<close> and its message\<close>
  | OSError                                   \<comment> \<open>the executable could not be started\<close>
  | CalledProcessError int "string list" string  \<comment> \<open>returncode, cmd, output\<close>

subsection \<open>Decimal output of integers\<close>

definition digit :: "nat \<Rightarrow> char" where
  "digit n = ''0123456789'' ! (n mod 10)"

fun str_nat :: "nat \<Rightarrow> string" where
  "str_nat n = (if n < 10 then [digit n] else str_nat (n div 10) @ [digit n])"

declare str_nat.simps [simp del]

definition str_int :: "int \<Rightarrow> string" where
  "str_int i = (if i < 0 then CHR ''-'' # str_nat (nat (- i)) else str_nat (nat i))"

subsection \<open>Doubles\<close>

text \<open>
  The float arithmetic of the two formatting helpers is modelled exactly, on integers.
  \<open>Finite m e\<close> is the double of value \<open>m * 2 ^ e\<close>; the helpers only reach floats that
  are not negative (a value is divided only after it compared \<open>\<ge>\<close> a positive scale), so
  the sign is left out. \<open>round_double n d\<close> is the double nearest to the fraction \<open>n / d\<close>
  (\<open>d > 0\<close>) under IEEE 754 round-to-nearest, ties-to-even: 53 significant bits, gradual
  underflow below \<open>2 ^ - 1022\<close>, infinity from \<open>2 ^ 1024\<close> on.
\<close>

datatype double = Finite nat int | Infinity | NaN

definition round_half_even :: "nat \<Rightarrow> nat \<Rightarrow> nat" where
  "round_half_even n d =
     (let q = n div d; r = n mod d
      in if 2 * r < d then q
         else if d < 2 * r then q + 1
         else if even q then q else q + 1)"

fun bitlen :: "nat \<Rightarrow> nat" where
  "bitlen n = (if n = 0 then 0 else Suc (bitlen (n div 2)))"

declare bitlen.simps [simp del]

definition round_double :: "nat \<Rightarrow> nat \<Rightarrow> double" where
  "round_double n d =
     (let k = int (bitlen n) - int (bitlen d);
          l = (if (if 0 \<le> k then d * 2 ^ nat k \<le> n else d \<le> n * 2 ^ nat (- k))
               then k else k - 1);
          e = max (l - 52) (- 1074);
          m = (if 0 \<le> e then round_half_even n (d * 2 ^ nat e)
               else round_half_even (n * 2 ^ nat (- e)) d)
      in if 0 \<le> e \<and> 2 ^ 1024 \<le> m * 2 ^ nat e then Infinity else Finite m e)"

text \<open>\<^verbatim>\<open>float(n)\<close> for a long \<open>n \<ge> 0\<close>, as the division \<^verbatim>\<open>n / 1000.0\<close> coerces its left operand.\<close>

definition long_as_double :: "nat \<Rightarrow> py_error + double" where
  "long_as_double n =
     (case round_double n 1 of
        Finite m e \<Rightarrow> Inr (Finite m e)
      | _ \<Rightarrow> Inl OverflowError)"

fun float_div :: "double \<Rightarrow> double \<Rightarrow> py_error + double" where
  "float_div (Finite m e) (Finite m' e') =
     (if m' = 0 then Inl ZeroDivisionError
      else Inr (round_double (m * 2 ^ nat (e - e')) (m' * 2 ^ nat (e' - e))))"
| "float_div Infinity (Finite m' e') = (if m' = 0 then Inl ZeroDivisionError else Inr Infinity)"
| "float_div (Finite m e) Infinity = Inr (Finite 0 0)"
| "float_div Infinity Infinity = Inr NaN"
| "float_div NaN (Finite m' e') = (if m' = 0 then Inl ZeroDivisionError else Inr NaN)"
| "float_div NaN _ = Inr NaN"
| "float_div _ NaN = Inr NaN"

text \<open>Python compares a long with a float exactly, without converting the long.\<close>

fun long_ge_float :: "int \<Rightarrow> double \<Rightarrow> bool" where
  "long_ge_float v (Finite m e) =
     (if 0 \<le> e then int (m * 2 ^ nat e) \<le> v else int m \<le> v * 2 ^ nat (- e))"
| "long_ge_float v Infinity = False"
| "long_ge_float v NaN = False"

text \<open>
  \<^verbatim>\<open>'%.3f' % x\<close>: the decimal expansion of the double itself, correctly rounded to three
  places (ties to even), as Python 2.7's \<^verbatim>\<open>PyOS_double_to_string\<close> prints it.
\<close>

definition pad3 :: "nat \<Rightarrow> string" where
  "pad3 n = [digit (n div 100), digit (n div 10), digit n]"

fun format_f3 :: "double \<Rightarrow> string" where
  "format_f3 (Finite m e) =
     (let k = (if 0 \<le> e then 1000 * m * 2 ^ nat e
               else round_half_even (1000 * m) (2 ^ nat (- e)))
      in str_nat (k div 1000) @ ''.'' @ pad3 (k mod 1000))"
| "format_f3 Infinity = ''inf''"
| "format_f3 NaN = ''nan''"

section \<open>Unit formatting: \<^verbatim>\<open>humanize_us\<close> and \<^verbatim>\<open>humanize_count\<close>\<close>

text \<open>
  Both functions walk a list of \<^verbatim>\<open>(fmt, scale)\<close> pairs and return \<^verbatim>\<open>fmt % (value/scale)\<close> for
  the first scale with \<^verbatim>\<open>value >= scale\<close>. A pair is either a \<^verbatim>\<open>'%.3f'\<close> format with a float
  scale (\<open>FloatScale\<close>: the value is converted to a float and divided) or the \<^verbatim>\<open>'%d'\<close> format
  with the int scale 1 (\<open>IntScale\<close>: Python 2 divides two ints by floor division).
\<close>

datatype scale_entry =
    FloatScale string double   \<comment> \<open>\<^verbatim>\<open>('%.3f' + suffix, scale)\<close>\<close>
  | IntScale string int        \<comment> \<open>\<^verbatim>\<open>('%d' + suffix, scale)\<close>\<close>

fun meets :: "int \<Rightarrow> scale_entry \<Rightarrow> bool" where
  "meets v (FloatScale sfx s) = long_ge_float v s"
| "meets v (IntScale sfx s) = (s \<le> v)"

text \<open>\<^verbatim>\<open>value / scale\<close> for a long and a float: the long is converted, then the floats divide.\<close>

definition long_div_float :: "int \<Rightarrow> double \<Rightarrow> py_error + double" where
  "long_div_float v s =
     (case long_as_double (nat v) of Inl err \<Rightarrow> Inl err | Inr x \<Rightarrow> float_div x s)"

fun format_scaled :: "int \<Rightarrow> scale_entry \<Rightarrow> py_error + string" where
  "format_scaled v (FloatScale sfx s) =
     (case long_div_float v s of Inl err \<Rightarrow> Inl err | Inr q \<Rightarrow> Inr (format_f3 q @ sfx))"
| "format_scaled v (IntScale sfx s) =
     (if s = 0 then Inl ZeroDivisionError else Inr (str_int (v div s) @ sfx))"

fun first_scale :: "scale_entry list \<Rightarrow> string \<Rightarrow> int \<Rightarrow> py_error + string" where
  "first_scale [] fallback v = Inr fallback"
| "first_scale (entry # rest) fallback v =
     (if meets v entry then format_scaled v entry else first_scale rest fallback v)"

definition humanize_us :: "int \<Rightarrow> py_error + string" where
  "humanize_us micros =
     first_scale
       [FloatScale ''h'' (Finite (60 * 60 * 1000000) 0), FloatScale ''m'' (Finite (60 * 1000000) 0),
        FloatScale ''s'' (Finite 1000000 0), FloatScale ''ms'' (Finite 1000 0),
        IntScale ''us'' 1]
       ''0us'' micros"

definition humanize_count :: "int \<Rightarrow> py_error + string" where
  "humanize_count count =
     first_scale
       [FloatScale ''G'' (Finite (2 ^ 30) 0), FloatScale ''M'' (Finite (2 ^ 20) 0),
        FloatScale ''K'' (Finite (2 ^ 10) 0), IntScale '''' 1]
       ''0'' count"

section \<open>Dynamically typed arguments\<close>

text \<open>
  The constructor of \<^verbatim>\<open>DatabaseSpec\<close> checks no types: it tests each argument for truth and
  coerces the port with \<^verbatim>\<open>int()\<close>. The arguments are therefore Python values; the kinds a
  caller configures a connection with are modelled: \<^verbatim>\<open>None\<close>, ints and strings.
\<close>

datatype pyval = PyNone | PyInt int | PyStr string

fun truthy :: "pyval \<Rightarrow> bool" where
  "truthy PyNone = False"
| "truthy (PyInt n) = (n \<noteq> 0)"
| "truthy (PyStr s) = (s \<noteq> [])"

abbreviation SP :: char where "SP \<equiv> CHR '' ''"
abbreviation TAB :: char where "TAB \<equiv> CHR 0x09"
abbreviation NL :: char where "NL \<equiv> CHR 0x0A"
abbreviation CR :: char where "CR \<equiv> CHR 0x0D"
abbreviation DQUOTE :: char where "DQUOTE \<equiv> CHR 0x22"

text \<open>
  \<^verbatim>\<open>int(s)\<close> for a string, base 10, as Python 2.7 reads it: white space, an optional sign,
  white space again (2.7 still skips it after the sign), one or more decimal digits, white
  space, and nothing else. Any other string is a \<^verbatim>\<open>ValueError\<close>. The result is a long of any
  size.
\<close>

definition is_space :: "char \<Rightarrow> bool" where
  "is_space c = (c \<in> set [CHR '' '', TAB, NL, CHR 0x0B, CHR 0x0C, CR])"

definition is_digit :: "char \<Rightarrow> bool" where
  "is_digit c = (c \<in> set ''0123456789'')"

definition digit_value :: "char \<Rightarrow> nat" where
  "digit_value c = of_char c - 48"

definition digits_value :: "string \<Rightarrow> nat" where
  "digits_value ds = foldl (\<lambda>acc c. 10 * acc + digit_value c) 0 ds"

definition int_of_str :: "string \<Rightarrow> int option" where
  "int_of_str s =
     (let s1 = dropWhile is_space s;
          negative = (case s1 of c # _ \<Rightarrow> c = CHR ''-'' | [] \<Rightarrow> False);
          s2 = (case s1 of c # r \<Rightarrow> if c = CHR ''-'' \<or> c = CHR ''+'' then r else s1 | [] \<Rightarrow> s1);
          s3 = dropWhile is_space s2;
          ds = takeWhile is_digit s3;
          rest = dropWhile is_space (dropWhile is_digit s3)
      in if ds = [] \<or> rest \<noteq> [] then None
         else Some (if negative then - int (digits_value ds) else int (digits_value ds)))"

fun py_int :: "pyval \<Rightarrow> py_error + int" where
  "py_int PyNone = Inl (TypeError IntArgument)"
| "py_int (PyInt n) = Inr n"
| "py_int (PyStr s) = (case int_of_str s of None \<Rightarrow> Inl (ValueError s) | Some n \<Rightarrow> Inr n)"

section \<open>The connection descriptor: \<^verbatim>\<open>DatabaseSpec\<close>\<close>

record DatabaseSpec =
  host :: pyval
  port :: int
  user :: pyval
  password :: pyval
  database :: pyval
  driver :: pyval

text \<open>
  \<^verbatim>\<open>__init__\<close> assigns the fields in the order host, port, user, password, database, driver;
  only \<^verbatim>\<open>int(port)\<close> can raise, and then no object exists.
\<close>

definition DatabaseSpec_init ::
  "pyval \<Rightarrow> pyval \<Rightarrow> pyval \<Rightarrow> pyval \<Rightarrow> pyval \<Rightarrow> pyval \<Rightarrow> py_error + DatabaseSpec" where
  "DatabaseSpec_init host' port' user' password' database' driver' =
     (case (if truthy port' then py_int port' else Inr 3306) of
        Inl err \<Rightarrow> Inl err
      | Inr n \<Rightarrow>
          Inr \<lparr>host = (if truthy host' then host' else PyStr ''localhost''),
               port = n,
               user = (if truthy user' then user' else PyStr ''root''),
               password = (if truthy password' then password' else PyStr []),
               database = (if truthy database' then database' else PyStr []),
               driver = (if truthy driver' then driver' else PyStr ''mysql'')\<rparr>)"

text \<open>
  A call may leave any argument out; the parameter then takes the default of the signature
  \<^verbatim>\<open>(host="localhost", port=3306, user="root", password="", database="", driver="mysql")\<close>.
\<close>

definition DatabaseSpec_call ::
  "pyval option \<Rightarrow> pyval option \<Rightarrow> pyval option \<Rightarrow> pyval option \<Rightarrow> pyval option \<Rightarrow> pyval option
     \<Rightarrow> py_error + DatabaseSpec" where
  "DatabaseSpec_call host' port' user' password' database' driver' =
     DatabaseSpec_init
       (case host' of None \<Rightarrow> PyStr ''localhost'' | Some v \<Rightarrow> v)
       (case port' of None \<Rightarrow> PyInt 3306 | Some v \<Rightarrow> v)
       (case user' of None \<Rightarrow> PyStr ''root'' | Some v \<Rightarrow> v)
       (case password' of None \<Rightarrow> PyStr [] | Some v \<Rightarrow> v)
       (case database' of None \<Rightarrow> PyStr [] | Some v \<Rightarrow> v)
       (case driver' of None \<Rightarrow> PyStr ''mysql'' | Some v \<Rightarrow> v)"

section \<open>Query statistics\<close>

record QueryStatistic =
  name :: string
  startMicros :: int
  elapsedMicros :: int
  rowsAffected :: int

text \<open>
  \<^verbatim>\<open>QueryStatistic(*row)\<close> for a row of \<^verbatim>\<open>csv.reader\<close>, a list of strings. A row that does not
  have four fields cannot be bound to the four parameters: Python raises \<^verbatim>\<open>TypeError\<close> with
  the number of arguments given (self counted). The three numeric fields go through
  \<^verbatim>\<open>int()\<close> in the order start, elapsed, rows; the first that fails raises \<^verbatim>\<open>ValueError\<close>.
\<close>

fun QueryStatistic_init :: "string list \<Rightarrow> py_error + QueryStatistic" where
  "QueryStatistic_init [name', startMicros', elapsedMicros', rowsAffected'] =
     (case int_of_str startMicros' of
        None \<Rightarrow> Inl (ValueError startMicros')
      | Some s \<Rightarrow>
          (case int_of_str elapsedMicros' of
             None \<Rightarrow> Inl (ValueError elapsedMicros')
           | Some e \<Rightarrow>
               (case int_of_str rowsAffected' of
                  None \<Rightarrow> Inl (ValueError rowsAffected')
                | Some r \<Rightarrow>
                    Inr \<lparr>name = name', startMicros = s, elapsedMicros = e, rowsAffected = r\<rparr>)))"
| "QueryStatistic_init row = Inl (TypeError (WrongArgCount (length row + 1)))"

section \<open>The result channel: \<^verbatim>\<open>csv.reader\<close> over the statistics file\<close>

text \<open>
  Iterating a file yields its lines, each with its terminating newline (the last line may
  have none).
\<close>

fun file_lines :: "string \<Rightarrow> string list" where
  "file_lines [] = []"
| "file_lines (c # cs) =
     (if c = NL then [c] # file_lines cs
      else (case file_lines cs of [] \<Rightarrow> [[c]] | l # ls \<Rightarrow> (c # l) # ls))"

text \<open>
  The reader of the standard library with its default dialect (delimiter \<^verbatim>\<open>,\<close>, quote
  character \<^verbatim>\<open>"\<close>, doubled quotes, no escape character, not strict), as the state machine of
  \<^verbatim>\<open>_csv.c\<close>: \<open>parse_process_char\<close> consumes one character, \<open>None\<close> standing for the
  end-of-line mark the reader feeds after each line.
\<close>

datatype csv_state =
  START_RECORD | START_FIELD | IN_FIELD | IN_QUOTED_FIELD | QUOTE_IN_QUOTED_FIELD | EAT_CRNL

record parser =
  state :: csv_state
  saved_fields :: "string list"
  field :: string

definition parse_reset :: parser where
  "parse_reset = \<lparr>state = START_RECORD, saved_fields = [], field = []\<rparr>"

definition parse_save_field :: "parser \<Rightarrow> parser" where
  "parse_save_field p = p\<lparr>saved_fields := saved_fields p @ [field p], field := []\<rparr>"

definition parse_add_char :: "parser \<Rightarrow> char \<Rightarrow> csv_state \<Rightarrow> py_error + parser" where
  "parse_add_char p c next_state =
     (if 131072 \<le> length (field p) then Inl (CsvError ''field larger than field limit (131072)'')
      else Inr (p\<lparr>field := field p @ [c], state := next_state\<rparr>))"

definition start_field :: "parser \<Rightarrow> char option \<Rightarrow> py_error + parser" where
  "start_field p c =
     (case c of
        None \<Rightarrow> Inr ((parse_save_field p)\<lparr>state := START_RECORD\<rparr>)
      | Some ch \<Rightarrow>
          if ch = NL \<or> ch = CR then Inr ((parse_save_field p)\<lparr>state := EAT_CRNL\<rparr>)
          else if ch = DQUOTE then Inr (p\<lparr>state := IN_QUOTED_FIELD\<rparr>)
          else if ch = CHR '','' then Inr ((parse_save_field p)\<lparr>state := START_FIELD\<rparr>)
          else parse_add_char p ch IN_FIELD)"

definition parse_process_char :: "parser \<Rightarrow> char option \<Rightarrow> py_error + parser" where
  "parse_process_char p c =
     (case state p of
        START_RECORD \<Rightarrow>
          (case c of
             None \<Rightarrow> Inr p
           | Some ch \<Rightarrow>
               if ch = NL \<or> ch = CR then Inr (p\<lparr>state := EAT_CRNL\<rparr>)
               else start_field p c)
      | START_FIELD \<Rightarrow> start_field p c
      | IN_FIELD \<Rightarrow>
          (case c of
             None \<Rightarrow> Inr ((parse_save_field p)\<lparr>state := START_RECORD\<rparr>)
           | Some ch \<Rightarrow>
               if ch = NL \<or> ch = CR then Inr ((parse_save_field p)\<lparr>state := EAT_CRNL\<rparr>)
               else if ch = CHR '','' then Inr ((parse_save_field p)\<lparr>state := START_FIELD\<rparr>)
               else parse_add_char p ch IN_FIELD)
      | IN_QUOTED_FIELD \<Rightarrow>
          (case c of
             None \<Rightarrow> Inr p
           | Some ch \<Rightarrow>
               if ch = DQUOTE then Inr (p\<lparr>state := QUOTE_IN_QUOTED_FIELD\<rparr>)
               else parse_add_char p ch IN_QUOTED_FIELD)
      | QUOTE_IN_QUOTED_FIELD \<Rightarrow>
          (case c of
             None \<Rightarrow> Inr ((parse_save_field p)\<lparr>state := START_RECORD\<rparr>)
           | Some ch \<Rightarrow>
               if ch = DQUOTE then parse_add_char p ch IN_QUOTED_FIELD
               else if ch = CHR '','' then Inr ((parse_save_field p)\<lparr>state := START_FIELD\<rparr>)
               else if ch = NL \<or> ch = CR then Inr ((parse_save_field p)\<lparr>state := EAT_CRNL\<rparr>)
               else parse_add_char p ch IN_FIELD)
      | EAT_CRNL \<Rightarrow>
          (case c of
             None \<Rightarrow> Inr (p\<lparr>state := START_RECORD\<rparr>)
           | Some ch \<Rightarrow>
               if ch = NL \<or> ch = CR then Inr p
               else Inl (CsvError ''new-line character seen in unquoted field - do you need to open the file in universal-newline mode?'')))"

text \<open>One line: its characters (a NUL byte is refused), then the end-of-line mark.\<close>

fun process_line :: "parser \<Rightarrow> string \<Rightarrow> py_error + parser" where
  "process_line p [] = parse_process_char p None"
| "process_line p (c # cs) =
     (if c = CHR 0x00 then Inl (CsvError ''line contains NULL byte'')
      else (case parse_process_char p (Some c) of
              Inl err \<Rightarrow> Inl err
            | Inr p' \<Rightarrow> process_line p' cs))"

text \<open>
  The rows the reader yields until the input is exhausted, and the error that ends the
  iteration early, if any. Each record starts from a reset parser and takes lines until the
  machine is back in \<open>START_RECORD\<close>; input that ends inside a quoted field, or with a
  pending field, still yields that record.
\<close>

fun csv_reader :: "parser \<Rightarrow> string list \<Rightarrow> string list list \<times> py_error option" where
  "csv_reader p [] =
     (if field p \<noteq> [] \<or> state p = IN_QUOTED_FIELD then ([saved_fields (parse_save_field p)], None)
      else ([], None))"
| "csv_reader p (l # ls) =
     (case process_line p l of
        Inl err \<Rightarrow> ([], Some err)
      | Inr p' \<Rightarrow>
          if state p' = START_RECORD
          then (case csv_reader parse_reset ls of (rows, err) \<Rightarrow> (saved_fields p' # rows, err))
          else csv_reader p' ls)"

section \<open>The driver invocation: \<^verbatim>\<open>RunDbbench\<close>\<close>

text \<open>\<^verbatim>\<open>os.path.dirname\<close> on a POSIX path.\<close>

definition dirname :: "string \<Rightarrow> string" where
  "dirname p =
     (let head = rev (dropWhile (\<lambda>c. c \<noteq> CHR ''/'') (rev p))
      in if head \<noteq> [] \<and> \<not> list_all (\<lambda>c. c = CHR ''/'') head
         then rev (dropWhile (\<lambda>c. c = CHR ''/'') (rev head))
         else head)"

text \<open>
  The list comprehension \<^verbatim>\<open>[QueryStatistic(*row) for row in csv.reader(statsFile)]\<close> builds
  the records in the order of the rows. Any exception, of a constructor or of the reader,
  leaves the comprehension, and the list built so far is lost with it. The reader is lazy:
  its error surfaces after the rows before it were constructed.
\<close>

fun construct_all :: "string list list \<Rightarrow> py_error + QueryStatistic list" where
  "construct_all [] = Inr []"
| "construct_all (row # rows) =
     (case QueryStatistic_init row of
        Inl err \<Rightarrow> Inl err
      | Inr q \<Rightarrow> (case construct_all rows of Inl err \<Rightarrow> Inl err | Inr qs \<Rightarrow> Inr (q # qs)))"

definition read_statistics :: "string \<Rightarrow> py_error + QueryStatistic list" where
  "read_statistics content =
     (case csv_reader parse_reset (file_lines content) of
        (rows, err) \<Rightarrow>
          (case construct_all rows of
             Inl e \<Rightarrow> Inl e
           | Inr qs \<Rightarrow> (case err of Some e \<Rightarrow> Inl e | None \<Rightarrow> Inr qs)))"

text \<open>
  The command line. (The temporary statistics file, kept at debug level and deleted
  otherwise, has no part in the result; the model takes its name as an argument.) The
  descriptor's fields are whatever the caller stored; the debug line
  \<^verbatim>\<open>" ".join(a if a else repr(a) for a in command)\<close> is built on every call and raises
  \<^verbatim>\<open>TypeError\<close> at the first element that is true and not a string, and the process is
  started with strings only.
\<close>

definition command_line :: "DatabaseSpec \<Rightarrow> string \<Rightarrow> string option \<Rightarrow> string \<Rightarrow> pyval list" where
  "command_line dbspec configFileName basedir statsFileName =
     [PyStr ''dbbench'',
      PyStr ''--database'', database dbspec,
      PyStr ''--host'', host dbspec,
      PyStr ''--port'', PyStr (str_int (port dbspec)),
      PyStr ''--username'', user dbspec,
      PyStr ''--password'', password dbspec,
      PyStr ''--intermediate-stats=false'',
      PyStr ''--query-stats-file'', PyStr statsFileName,
      PyStr ''--base-dir'',
      PyStr (case basedir of None \<Rightarrow> dirname configFileName | Some b \<Rightarrow> b),
      PyStr configFileName]"

fun join_check :: "nat \<Rightarrow> pyval list \<Rightarrow> py_error option" where
  "join_check i [] = None"
| "join_check i (PyStr s # rest) = join_check (i + 1) rest"
| "join_check i (a # rest) =
     (if truthy a then Some (TypeError (JoinItem i)) else join_check (i + 1) rest)"

fun argv :: "pyval list \<Rightarrow> py_error + string list" where
  "argv [] = Inr []"
| "argv (PyStr s # rest) = (case argv rest of Inl err \<Rightarrow> Inl err | Inr ss \<Rightarrow> Inr (s # ss))"
| "argv (a # rest) = Inl (TypeError ExecvArgument)"

definition dbbench_command ::
  "DatabaseSpec \<Rightarrow> string \<Rightarrow> string option \<Rightarrow> string \<Rightarrow> py_error + string list" where
  "dbbench_command dbspec configFileName basedir statsFileName =
     (let command = command_line dbspec configFileName basedir statsFileName
      in case join_check 0 command of Some err \<Rightarrow> Inl err | None \<Rightarrow> argv command)"

text \<open>
  What the external process did, as \<^verbatim>\<open>subprocess.check_output\<close> and the statistics file show
  it: the exit code, the combined standard output and error, and the bytes it left in the
  statistics file. The environment maps a command line to that outcome, or to nothing when
  the executable cannot be started.
\<close>

record process_result =
  returncode :: int
  combined_output :: string
  stats :: string

type_synonym environment = "string list \<Rightarrow> process_result option"

definition RunDbbench ::
  "environment \<Rightarrow> string \<Rightarrow> DatabaseSpec \<Rightarrow> string \<Rightarrow> string option
     \<Rightarrow> py_error + QueryStatistic list" where
  "RunDbbench env statsFileName dbspec configFileName basedir =
     (case dbbench_command dbspec configFileName basedir statsFileName of
        Inl err \<Rightarrow> Inl err
      | Inr cmd \<Rightarrow>
          (case env cmd of
             None \<Rightarrow> Inl OSError
           | Some r \<Rightarrow>
               if returncode r \<noteq> 0 then Inl (CalledProcessError (returncode r) cmd (combined_output r))
               else read_statistics (stats r)))"

text \<open>
  A row breaks the row contract when it does not have four fields or when one of its three
  numeric fields is not an integer literal for \<^verbatim>\<open>int()\<close>.
\<close>

definition malformed :: "string list \<Rightarrow> bool" where
  "malformed row =
     (length row \<noteq> 4 \<or> int_of_str (row ! 1) = None \<or> int_of_str (row ! 2) = None
        \<or> int_of_str (row ! 3) = None)"

text \<open>
  Shorthands for the examples: the descriptor of a call without arguments, and an
  environment whose process exits with code 0 and leaves the given bytes in the statistics
  file.
\<close>

abbreviation default_spec :: DatabaseSpec where
  "default_spec \<equiv>
     \<lparr>host = PyStr ''localhost'', port = 3306, user = PyStr ''root'', password = PyStr [],
      database = PyStr [], driver = PyStr ''mysql''\<rparr>"

abbreviation channel :: "string \<Rightarrow> environment" where
  "channel content \<equiv> (\<lambda>cmd. Some \<lparr>returncode = 0, combined_output = [], stats = content\<rparr>)"

section \<open>The query text normalizer: \<^verbatim>\<open>CleanQuery\<close>\<close>

subsection \<open>The module's global names\<close>

text \<open>
  A name used in a function body is looked up in the module's globals when the body runs.
  The module binds the names below, by its \<^verbatim>\<open>import\<close> statements
  (\<^verbatim>\<open>csv\<close>, \<^verbatim>\<open>logging\<close>, \<^verbatim>\<open>subprocess\<close>, \<^verbatim>\<open>os\<close>, \<^verbatim>\<open>NamedTemporaryFile\<close>), its assignment to
  \<^verbatim>\<open>logger\<close> and its \<^verbatim>\<open>def\<close> and \<^verbatim>\<open>class\<close> statements. It has no \<^verbatim>\<open>import re\<close>, and \<^verbatim>\<open>re\<close> is no
  builtin.
\<close>

definition dbbench_globals :: "string list" where
  "dbbench_globals =
     [''csv'', ''logging'', ''subprocess'', ''os'', ''NamedTemporaryFile'', ''logger'',
      ''humanize_us'', ''humanize_count'', ''QueryStatistic'', ''DatabaseSpec'', ''RunDbbench'',
      ''EnsureDbbenchInPath'', ''CleanQuery'']"

subsection \<open>String methods\<close>

text \<open>\<^verbatim>\<open>query.split("\n")\<close>: the pieces between the newlines, one more than there are newlines.\<close>

fun split_nl :: "string \<Rightarrow> string list" where
  "split_nl [] = [[]]"
| "split_nl (c # cs) =
     (if c = NL then [] # split_nl cs
      else (case split_nl cs of [] \<Rightarrow> [[c]] | l # ls \<Rightarrow> (c # l) # ls))"

text \<open>\<^verbatim>\<open>" ".join(pieces)\<close>\<close>

fun join_sp :: "string list \<Rightarrow> string" where
  "join_sp [] = []"
| "join_sp [l] = l"
| "join_sp (l # l' # ls) = l @ CHR '' '' # join_sp (l' # ls)"

subsection \<open>The three substitutions\<close>

text \<open>
  \<^verbatim>\<open>re.sub\<close> scans its subject from left to right; where the pattern matches it puts the
  replacement and goes on behind the match, elsewhere it copies one character. None of the
  three patterns matches the empty string. Each substitution is modelled by the match of
  its pattern at the start of the remaining text, which gives what remains behind the
  match, and the scan.

  \<^verbatim>\<open>--.*$\<close>: two dashes, then all characters up to the next newline (\<^verbatim>\<open>.\<close> matches anything
  else), and there the subject must end, or end after that one newline. A shorter \<^verbatim>\<open>.*\<close>
  stops before a character that is no newline, where \<^verbatim>\<open>$\<close> fails.
\<close>

definition match_comment :: "string \<Rightarrow> string option" where
  "match_comment s =
     (case s of
        c # d # rest \<Rightarrow>
          if c = CHR ''-'' \<and> d = CHR ''-''
          then (let behind = dropWhile (\<lambda>x. x \<noteq> NL) rest
                in if behind = [] \<or> behind = [NL] then Some behind else None)
          else None
      | _ \<Rightarrow> None)"

lemma match_comment_shorter:
  assumes "match_comment s = Some behind"
  shows "length behind < length s"
proof -
  have "length (dropWhile P xs) \<le> length xs" for P and xs :: string
    by (rule length_dropWhile_le)
  with assms show ?thesis
    by (auto simp: match_comment_def Let_def le_imp_less_Suc less_SucI
        split: list.splits if_splits)
qed

function sub_comment :: "string \<Rightarrow> string" where
  "sub_comment [] = []"
| "sub_comment (c # cs) =
     (case match_comment (c # cs) of
        Some behind \<Rightarrow> sub_comment behind
      | None \<Rightarrow> c # sub_comment cs)"
  by pat_completeness auto
termination
  by (relation "measure length") (auto dest: match_comment_shorter)

text \<open>
  \<^verbatim>\<open>(^ +)|( +$)\<close>: at the start of the subject the first alternative takes the leading
  spaces. Behind the start it cannot match; the second alternative takes a run of spaces
  after which the subject ends, or ends after one newline.
\<close>

definition match_trailing :: "string \<Rightarrow> string option" where
  "match_trailing s =
     (case s of
        c # rest \<Rightarrow>
          if c = CHR '' ''
          then (let behind = dropWhile (\<lambda>x. x = CHR '' '') rest
                in if behind = [] \<or> behind = [NL] then Some behind else None)
          else None
      | [] \<Rightarrow> None)"

lemma match_trailing_shorter:
  assumes "match_trailing s = Some behind"
  shows "length behind < length s"
proof -
  have "length (dropWhile P xs) \<le> length xs" for P and xs :: string
    by (rule length_dropWhile_le)
  with assms show ?thesis
    by (auto simp: match_trailing_def Let_def le_imp_less_Suc split: list.splits if_splits)
qed

function scan_trailing :: "string \<Rightarrow> string" where
  "scan_trailing [] = []"
| "scan_trailing (c # cs) =
     (case match_trailing (c # cs) of
        Some behind \<Rightarrow> scan_trailing behind
      | None \<Rightarrow> c # scan_trailing cs)"
  by pat_completeness auto
termination
  by (relation "measure length") (auto dest: match_trailing_shorter)

definition sub_edges :: "string \<Rightarrow> string" where
  "sub_edges s = scan_trailing (dropWhile (\<lambda>x. x = CHR '' '') s)"

text \<open>\<^verbatim>\<open>re.sub(r" +", " ", query)\<close>: every maximal run of spaces becomes one space.\<close>

function sub_spaces :: "string \<Rightarrow> string" where
  "sub_spaces [] = []"
| "sub_spaces (c # cs) =
     (if c = CHR '' '' then CHR '' '' # sub_spaces (dropWhile (\<lambda>x. x = CHR '' '') cs)
      else c # sub_spaces cs)"
  by pat_completeness auto
termination
  by (relation "measure length") (auto simp: le_imp_less_Suc length_dropWhile_le)

subsection \<open>The function\<close>

text \<open>
  \<^verbatim>\<open>CleanQuery\<close> looks \<^verbatim>\<open>re\<close> up when the generator yields its first element; \<^verbatim>\<open>split\<close> always
  gives at least one piece, so the lookup happens on every call. With the name unbound the
  call raises \<^verbatim>\<open>NameError\<close>; with the name bound to the standard module the three
  substitutions run.
\<close>

definition CleanQuery :: "string list \<Rightarrow> string \<Rightarrow> py_error + string" where
  "CleanQuery globals query =
     (if ''re'' \<in> set globals
      then Inr (sub_spaces (sub_edges (join_sp (map sub_comment (split_nl query)))))
      else Inl (NameError ''re''))"

subsection \<open>The normal form in the words of the specification\<close>

text \<open>
  What the specification asks of the normalizer, written without reference to regular
  expressions: cut every line at its first \<^verbatim>\<open>--\<close>, join the lines with one space, and keep
  the words (the maximal runs without a space) separated by single spaces. Only the space
  character counts as white space here.
\<close>

fun strip_line_comment :: "string \<Rightarrow> string" where
  "strip_line_comment (c # d # rest) =
     (if c = CHR ''-'' \<and> d = CHR ''-'' then [] else c # strip_line_comment (d # rest))"
| "strip_line_comment s = s"

function words_of :: "string \<Rightarrow> string list" where
  "words_of [] = []"
| "words_of (c # cs) =
     (if c = CHR '' '' then words_of cs
      else (c # takeWhile (\<lambda>x. x \<noteq> CHR '' '') cs) # words_of (dropWhile (\<lambda>x. x \<noteq> CHR '' '') cs))"
  by pat_completeness auto
termination
  by (relation "measure length") (auto simp: le_imp_less_Suc length_dropWhile_le)

definition normal_form :: "string \<Rightarrow> string" where
  "normal_form query = join_sp (words_of (join_sp (map strip_line_comment (split_nl query))))"

text \<open>A text holds a line-comment marker when two dashes stand side by side in it.\<close>

fun has_dashes :: "string \<Rightarrow> bool" where
  "has_dashes (c # d # rest) = ((c = CHR ''-'' \<and> d = CHR ''-'') \<or> has_dashes (d # rest))"
| "has_dashes s = False"

declare sub_comment.simps(2) [simp del]
declare scan_trailing.simps(2) [simp del]

section \<open>The scaled output in the words of the specification\<close>

text \<open>
  The output the specification asks for at a float scale: the quotient \<^verbatim>\<open>value / scale\<close> is a
  finite double, and the result is its \<^verbatim>\<open>'%.3f'\<close> rendering, an integer part, a point and
  exactly three decimal digits, followed by the unit suffix.
\<close>

definition scaled_output :: "int \<Rightarrow> nat \<Rightarrow> string \<Rightarrow> py_error + string \<Rightarrow> bool" where
  "scaled_output v s sfx result \<longleftrightarrow>
     (\<exists>m e ip fp. long_div_float v (Finite s 0) = Inr (Finite m e)
        \<and> format_f3 (Finite m e) = ip @ ''.'' @ fp
        \<and> ip \<noteq> [] \<and> list_all is_digit ip \<and> length fp = 3 \<and> list_all is_digit fp
        \<and> result = Inr (ip @ ''.'' @ fp @ sfx))"

section \<open>The defaulting policy in the words of the specification\<close>



section \<open>Properties of the unit formatting\<close>

text \<open>
  Claim C10. A negative value fails every comparison \<^verbatim>\<open>value >= scale\<close>, so both helpers fall
  through their loop and return the fallback string: \<^verbatim>\<open>humanize_us(v)\<close> is \<^verbatim>\<open>"0us"\<close> and
  \<^verbatim>\<open>humanize_count(v)\<close> is \<^verbatim>\<open>"0"\<close> for every \<open>v < 0\<close>; nothing is raised and no sign is
  printed.
\<close>

theorem humanize_negative:
  assumes "v < 0"
  shows "humanize_us v = Inr ''0us'' \<and> humanize_count v = Inr ''0''"
  using assms by (simp add: humanize_us_def humanize_count_def)

theorem humanize_negative_witness:
  "(- 5 :: int) < 0 \<and> humanize_us (- 5) = Inr ''0us'' \<and> humanize_count (- 5) = Inr ''0''"
  using humanize_negative [of "- 5"] by simp

subsection \<open>Bit lengths and rounding\<close>

lemma bitlen_pos: "0 < n \<Longrightarrow> 0 < bitlen n"
  by (subst bitlen.simps) simp

lemma bitlen_bounds:
  "0 < n \<Longrightarrow> 2 ^ (bitlen n - 1) \<le> n \<and> n < 2 ^ bitlen n"
proof (induction n rule: bitlen.induct)
  case (1 n)
  show ?case
  proof (cases "n div 2 = 0")
    case True
    with "1.prems" have "n = Suc 0" by (simp add: div_eq_0_iff)
    then show ?thesis by (simp add: bitlen.simps [of "Suc 0"] bitlen.simps [of 0])
  next
    case False
    then have pos: "0 < n div 2" by simp
    from "1.IH" "1.prems" pos
    have IH: "2 ^ (bitlen (n div 2) - 1) \<le> n div 2" "n div 2 < 2 ^ bitlen (n div 2)"
      by auto
    have b: "bitlen n = Suc (bitlen (n div 2))"
      using "1.prems" by (subst bitlen.simps) simp
    obtain j where j: "bitlen (n div 2) = Suc j"
      using bitlen_pos [OF pos] by (cases "bitlen (n div 2)") auto
    from IH j have "2 * 2 ^ j \<le> 2 * (n div 2)" by simp
    then have lo: "2 ^ (bitlen n - 1) \<le> n" by (simp add: b j) 
    from IH(2) have "n div 2 + 1 \<le> 2 ^ bitlen (n div 2)" by simp
    then have "2 * (n div 2 + 1) \<le> 2 * 2 ^ bitlen (n div 2)" by simp
    moreover have "n < 2 * (n div 2 + 1)" by presburger
    ultimately have hi: "n < 2 ^ bitlen n" by (simp add: b)
    from lo hi show ?thesis ..
  qed
qed

lemma round_half_even_le: "round_half_even n d \<le> n div d + 1"
  by (simp add: round_half_even_def Let_def)

lemma round_half_even_down: "2 * (n mod d) < d \<Longrightarrow> round_half_even n d = n div d"
  by (simp add: round_half_even_def Let_def)

lemma round_half_even_one: "round_half_even n 1 = n"
  by (simp add: round_half_even_def Let_def)

lemma round_double_not_NaN: "round_double n d \<noteq> NaN"
  by (simp add: round_double_def Let_def)

text \<open>What an overflow of the rounding says about the fraction.\<close>

lemma round_double_InfinityD:
  assumes "round_double n d = Infinity" and "0 < d"
  obtains l where "52 \<le> l" and "d * 2 ^ l \<le> n" and "n < d * 2 ^ Suc l"
    and "2 ^ 1024 \<le> round_half_even n (d * 2 ^ (l - 52)) * 2 ^ (l - 52)"
proof -
  define k where "k = int (bitlen n) - int (bitlen d)"
  define c where "c = (if 0 \<le> k then d * 2 ^ nat k \<le> n else d \<le> n * 2 ^ nat (- k))"
  define l where "l = (if c then k else k - 1)"
  define e where "e = max (l - 52) (- 1074)"
  define m where "m = (if 0 \<le> e then round_half_even n (d * 2 ^ nat e)
               else round_half_even (n * 2 ^ nat (- e)) d)"
  have "round_double n d = (if 0 \<le> e \<and> 2 ^ 1024 \<le> m * 2 ^ nat e then Infinity else Finite m e)"
    by (simp only: round_double_def Let_def k_def c_def l_def e_def m_def)
  with assms(1) have inf: "0 \<le> e" "2 ^ 1024 \<le> m * 2 ^ nat e"
    by (auto split: if_splits)
  then have l52: "52 \<le> l" and e: "e = l - 52" by (auto simp: e_def)
  then have kpos: "0 < k" by (auto simp: l_def split: if_splits)
  then have npos: "0 < n"
    by (cases "n = 0") (auto simp: k_def bitlen.simps [of 0])
  define a where "a = bitlen n"
  define b where "b = bitlen d"
  from bitlen_bounds [OF npos] have na: "2 ^ (a - 1) \<le> n" "n < 2 ^ a" by (auto simp: a_def)
  from bitlen_bounds [OF assms(2)] have db: "2 ^ (b - 1) \<le> d" "d < 2 ^ b" by (auto simp: b_def)
  have bpos: "0 < b" using bitlen_pos [OF assms(2)] by (simp add: b_def)
  have ab: "b < a" "nat k = a - b" using kpos by (auto simp: k_def a_def b_def)
  have lo: "d * 2 ^ nat l \<le> n"
  proof (cases c)
    case True
    then show ?thesis using kpos by (simp add: l_def c_def)
  next
    case False
    then have l: "nat l = a - b - 1" using ab kpos by (simp add: l_def)
    have "d * 2 ^ (a - b - 1) \<le> 2 ^ b * 2 ^ (a - b - 1)"
      using db(2) by (intro mult_le_mono1) simp
    also have "\<dots> = 2 ^ (a - 1)"
      using ab by (simp add: power_add [symmetric])
    also have "\<dots> \<le> n" by (rule na(1))
    finally show ?thesis by (simp only: l)
  qed
  have hi: "n < d * 2 ^ Suc (nat l)"
  proof (cases c)
    case True
    then have l: "nat l = a - b" using ab by (simp add: l_def)
    have "(2::nat) ^ (b - 1) * 2 ^ Suc (a - b) = 2 ^ (b - 1 + Suc (a - b))"
      by (simp only: power_add)
    also have "b - 1 + Suc (a - b) = a" using ab bpos by simp
    finally have eq: "(2::nat) ^ (b - 1) * 2 ^ Suc (a - b) = 2 ^ a" .
    have "n < 2 ^ a" by (rule na(2))
    also have "\<dots> = 2 ^ (b - 1) * 2 ^ Suc (a - b)" by (simp only: eq)
    also have "\<dots> \<le> d * 2 ^ Suc (a - b)"
      using db(1) by (rule mult_le_mono1)
    finally show ?thesis by (simp only: l)
  next
    case False
    then have "Suc (nat l) = nat k" using kpos by (simp add: l_def)
    with False kpos show ?thesis by (simp add: c_def)
  qed
  have "nat e = nat l - 52" using e by simp
  with inf have "2 ^ 1024 \<le> round_half_even n (d * 2 ^ (nat l - 52)) * 2 ^ (nat l - 52)"
    by (simp add: m_def)
  with that [of "nat l"] l52 lo hi show ?thesis by simp
qed

lemma pow2_less_exp: "(2::nat) ^ a < 2 ^ b \<Longrightarrow> a < b"
  by simp

lemma pow2_le_mono: "a \<le> b \<Longrightarrow> (2::nat) ^ a \<le> 2 ^ b"
  by simp

lemma pow2_split: "a \<le> b \<Longrightarrow> (2::nat) ^ (b - a) * 2 ^ a = 2 ^ b"
  by (simp add: power_add [symmetric])

lemma scaled_less: "0 < (d::nat) \<Longrightarrow> d * x \<le> n \<Longrightarrow> n < y * d \<Longrightarrow> x < y"
  by (metis le_less_trans mult.commute mult_less_cancel2)

lemma mantissa_bound:
  assumes "0 < D" and "n < D * 2 ^ Suc p"
  shows "round_half_even n D \<le> 2 ^ Suc p"
proof -
  from assms have "n div D < 2 ^ Suc p"
    by (simp only: div_less_iff_less_mult mult.commute)
  with round_half_even_le [of n D] show ?thesis by linarith
qed

lemma rounded_below:
  assumes "0 < d" and "p \<le> l" and "n < d * 2 ^ Suc l"
  shows "round_half_even n (d * 2 ^ (l - p)) * 2 ^ (l - p) \<le> 2 ^ Suc l"
proof -
  have p: "(2::nat) ^ (l - p) * 2 ^ Suc p = 2 ^ Suc l"
  proof -
    have "(2::nat) ^ (l - p) * 2 ^ Suc p = 2 ^ (l - p + Suc p)" by (simp only: power_add)
    also have "l - p + Suc p = Suc l" using assms(2) by simp
    finally show ?thesis .
  qed
  have "d * 2 ^ (l - p) * 2 ^ Suc p = d * 2 ^ Suc l"
    by (simp only: mult.assoc p)
  with assms(3) have "n < d * 2 ^ (l - p) * 2 ^ Suc p" by (simp only:)
  moreover have "0 < d * 2 ^ (l - p)" using assms(1) by simp
  ultimately have "round_half_even n (d * 2 ^ (l - p)) \<le> 2 ^ Suc p"
    by (rule mantissa_bound [rotated])
  then have "round_half_even n (d * 2 ^ (l - p)) * 2 ^ (l - p) \<le> 2 ^ Suc p * 2 ^ (l - p)"
    by (rule mult_le_mono1)
  also have "\<dots> = 2 ^ Suc l" using p by (simp only: mult.commute)
  finally show ?thesis .
qed

lemma round_double_no_overflow:
  assumes "0 < d" and "n < 2 ^ 1023 * d"
  shows "round_double n d \<noteq> Infinity"
proof
  assume "round_double n d = Infinity"
  from round_double_InfinityD [OF this assms(1)] obtain l
    where l: "52 \<le> l" "d * 2 ^ l \<le> n" "n < d * 2 ^ Suc l"
      "2 ^ 1024 \<le> round_half_even n (d * 2 ^ (l - 52)) * 2 ^ (l - 52)"
    by blast
  have "(2::nat) ^ l < 2 ^ 1023"
    using assms(1) l(2) assms(2) by (rule scaled_less)
  then have "l < 1023" by (rule pow2_less_exp)
  then have "Suc l \<le> 1023" by simp
  then have "(2::nat) ^ Suc l \<le> 2 ^ 1023" by (rule pow2_le_mono)
  with rounded_below [OF assms(1) l(1) l(3)] l(4)
  have "(2::nat) ^ 1024 \<le> 2 ^ 1023" by (meson order_trans)
  then show False by simp
qed

lemma long_in_range:
  assumes "n < 2 ^ 1024 - 2 ^ 970"
  shows "round_double n 1 \<noteq> Infinity"
proof
  assume "round_double n 1 = Infinity"
  from round_double_InfinityD [OF this] obtain l
    where l: "52 \<le> l" "1 * 2 ^ l \<le> n" "n < 1 * 2 ^ Suc l"
      "2 ^ 1024 \<le> round_half_even n (1 * 2 ^ (l - 52)) * 2 ^ (l - 52)"
    by (metis zero_less_one)
  have n: "n < 2 ^ 1024 * 1"
  proof -
    have "(2::nat) ^ 1024 - 2 ^ 970 \<le> 2 ^ 1024 * 1" by simp
    with assms show ?thesis by (rule less_le_trans)
  qed
  have "(2::nat) ^ l < 2 ^ 1024"
    using zero_less_one l(2) n by (rule scaled_less)
  then have l1024: "l < 1024" by (rule pow2_less_exp)
  show False
  proof (cases "l < 1023")
    case True
    then have "Suc l \<le> 1023" by simp
    then have "(2::nat) ^ Suc l \<le> 2 ^ 1023" by (rule pow2_le_mono)
    with rounded_below [OF zero_less_one l(1) l(3)] l(4)
    have "(2::nat) ^ 1024 \<le> 2 ^ 1023" by (meson order_trans)
    then show False by simp
  next
    case False
    with l1024 have l1023: "l = 1023" by simp
    define q where "q = n div 2 ^ 971"
    define r where "r = n mod 2 ^ 971"
    have nqr: "n = q * 2 ^ 971 + r" by (simp only: q_def r_def div_mult_mod_eq)
    have big: "2 ^ 1024 \<le> round_half_even n (2 ^ 971) * 2 ^ 971"
      using l(4) by (simp add: l1023)
    have m: "2 ^ 53 \<le> round_half_even n (2 ^ 971)"
    proof (rule ccontr)
      assume "\<not> 2 ^ 53 \<le> round_half_even n (2 ^ 971)"
      then have "round_half_even n (2 ^ 971) \<le> 2 ^ 53 - 1" by simp
      then have "round_half_even n (2 ^ 971) * 2 ^ 971 \<le> (2 ^ 53 - 1) * 2 ^ 971"
        by (rule mult_le_mono1)
      with big have "(2::nat) ^ 1024 \<le> (2 ^ 53 - 1) * 2 ^ 971" by (rule order_trans)
      then show False by simp
    qed
    have "n < 2 ^ 53 * 2 ^ 971" using n by simp
    then have q53: "q < 2 ^ 53"
      unfolding q_def by (simp only: div_less_iff_less_mult zero_less_power zero_less_numeral)
    from m round_half_even_le [of n "2 ^ 971"] q53
    have q: "q = 2 ^ 53 - 1" and up: "round_half_even n (2 ^ 971) \<noteq> q"
      unfolding q_def by linarith+
    from up round_half_even_down [of n "2 ^ 971"] have "\<not> 2 * r < 2 ^ 971"
      unfolding q_def r_def by blast
    then have "2 ^ 970 \<le> r" by simp
    then have "(2 ^ 53 - 1) * 2 ^ 971 + 2 ^ 970 \<le> n"
      by (simp only: nqr q add_le_cancel_left)
    with assms show False by simp
  qed
qed

lemma round_double_FiniteD:
  assumes "round_double n d = Finite m e"
  shows "\<not> (0 \<le> e \<and> 2 ^ 1024 \<le> m * 2 ^ nat e)"
    and "e < 0 \<Longrightarrow> m = round_half_even (n * 2 ^ nat (- e)) d"
proof -
  define k where "k = int (bitlen n) - int (bitlen d)"
  define c where "c = (if 0 \<le> k then d * 2 ^ nat k \<le> n else d \<le> n * 2 ^ nat (- k))"
  define l where "l = (if c then k else k - 1)"
  define e' where "e' = max (l - 52) (- 1074)"
  define m' where "m' = (if 0 \<le> e' then round_half_even n (d * 2 ^ nat e')
               else round_half_even (n * 2 ^ nat (- e')) d)"
  have "round_double n d = (if 0 \<le> e' \<and> 2 ^ 1024 \<le> m' * 2 ^ nat e' then Infinity else Finite m' e')"
    by (simp only: round_double_def Let_def k_def c_def l_def e'_def m'_def)
  with assms have *: "\<not> (0 \<le> e' \<and> 2 ^ 1024 \<le> m' * 2 ^ nat e')" "m = m'" "e = e'"
    by (auto split: if_splits)
  then show "\<not> (0 \<le> e \<and> 2 ^ 1024 \<le> m * 2 ^ nat e)" by simp
  show "m = round_half_even (n * 2 ^ nat (- e)) d" if "e < 0"
    using that * by (simp add: m'_def)
qed

lemma long_value_bound:
  assumes "round_double n 1 = Finite m e" and "n < 2 ^ 1024"
  shows "m * 2 ^ nat e < 2 ^ 1024 * 2 ^ nat (- e)"
proof (cases "0 \<le> e")
  case True
  with round_double_FiniteD(1) [OF assms(1)] have "m * 2 ^ nat e < 2 ^ 1024" by simp
  moreover from True have "nat (- e) = 0" by simp
  ultimately show ?thesis by (simp only: power_0 mult_1_right)
next
  case False
  then have neg: "e < 0" by simp
  from round_double_FiniteD(2) [OF assms(1) neg] have "m = n * 2 ^ nat (- e)"
    by (simp only: round_half_even_one)
  moreover have "nat e = 0" using neg by simp
  moreover have "n * 2 ^ nat (- e) < 2 ^ 1024 * 2 ^ nat (- e)"
    using assms(2) by (intro mult_strict_right_mono) simp_all
  ultimately show ?thesis by (simp only: power_0 mult_1_right)
qed

lemma long_as_double_Finite:
  assumes "n < 2 ^ 1024 - 2 ^ 970"
  obtains m e where "long_as_double n = Inr (Finite m e)" and "round_double n 1 = Finite m e"
proof -
  from long_in_range [OF assms] round_double_not_NaN [of n 1]
  obtain m e where "round_double n 1 = Finite m e"
    by (cases "round_double n 1") auto
  with that show ?thesis by (simp add: long_as_double_def)
qed

lemma long_div_float_Finite:
  assumes "0 \<le> v" and "v < 2 ^ 1024 - 2 ^ 970" and "2 \<le> s"
  shows "\<exists>m e. long_div_float v (Finite s 0) = Inr (Finite m e)"
proof -
  have "int ((2::nat) ^ 1024 - 2 ^ 970) = 2 ^ 1024 - 2 ^ 970" by simp
  with assms(1,2) have n: "nat v < 2 ^ 1024 - 2 ^ 970"
    by (simp only: nat_less_iff)
  then have n': "nat v < 2 ^ 1024"
    by (rule less_le_trans) simp
  from long_as_double_Finite [OF n] obtain m0 e0
    where x: "long_as_double (nat v) = Inr (Finite m0 e0)" "round_double (nat v) 1 = Finite m0 e0"
    by blast
  define N where "N = m0 * 2 ^ nat e0"
  define D where "D = s * 2 ^ nat (- e0)"
  have D: "0 < D" using assms(3) by (simp add: D_def)
  have "N < 2 ^ 1024 * 2 ^ nat (- e0)"
    unfolding N_def by (rule long_value_bound [OF x(2) n'])
  also have "(2::nat) ^ 1024 * 2 ^ nat (- e0) = 2 ^ 1023 * (2 * 2 ^ nat (- e0))" by simp
  also have "\<dots> \<le> 2 ^ 1023 * (s * 2 ^ nat (- e0))"
    using assms(3) by (intro mult_le_mono2 mult_le_mono1)
  finally have "N < 2 ^ 1023 * D" by (simp only: D_def)
  from round_double_no_overflow [OF D this] round_double_not_NaN [of N D]
  obtain m e where "round_double N D = Finite m e"
    by (cases "round_double N D") auto
  moreover have "long_div_float v (Finite s 0) = Inr (round_double N D)"
    using x(1) assms(3) by (simp add: long_div_float_def N_def D_def)
  ultimately show ?thesis by simp
qed

lemma digit_is_digit: "is_digit (digit n)"
proof -
  have "n mod 10 < length ''0123456789''" by simp
  then have "''0123456789'' ! (n mod 10) \<in> set ''0123456789''" by (rule nth_mem)
  then show ?thesis by (simp only: is_digit_def digit_def)
qed

lemma str_nat_digits: "str_nat n \<noteq> [] \<and> list_all is_digit (str_nat n)"
proof (induction n rule: str_nat.induct)
  case (1 n)
  then show ?case
    by (subst (1 2) str_nat.simps) (auto simp: digit_is_digit)
qed

lemma format_f3_shape:
  "\<exists>ip fp. format_f3 (Finite m e) = ip @ ''.'' @ fp \<and> ip \<noteq> [] \<and> list_all is_digit ip
     \<and> length fp = 3 \<and> list_all is_digit fp"
proof -
  define k where "k = (if 0 \<le> e then 1000 * m * 2 ^ nat e
               else round_half_even (1000 * m) (2 ^ nat (- e)))"
  have "format_f3 (Finite m e) = str_nat (k div 1000) @ ''.'' @ pad3 (k mod 1000)"
    by (simp add: k_def Let_def)
  moreover have "length (pad3 (k mod 1000)) = 3" "list_all is_digit (pad3 (k mod 1000))"
    by (simp_all add: pad3_def digit_is_digit)
  ultimately show ?thesis using str_nat_digits [of "k div 1000"] by blast
qed

lemma scaled_outputI:
  assumes "0 \<le> v" and "v < 2 ^ 1024 - 2 ^ 970" and "2 \<le> s"
  shows "scaled_output v s sfx (format_scaled v (FloatScale sfx (Finite s 0)))"
proof -
  from long_div_float_Finite [OF assms] obtain m e
    where q: "long_div_float v (Finite s 0) = Inr (Finite m e)" by blast
  from format_f3_shape [of m e] obtain ip fp
    where f: "format_f3 (Finite m e) = ip @ ''.'' @ fp" "ip \<noteq> []" "list_all is_digit ip"
      "length fp = 3" "list_all is_digit fp" by blast
  have "format_scaled v (FloatScale sfx (Finite s 0)) = Inr (ip @ ''.'' @ fp @ sfx)"
    using q f(1) by simp
  with q f show ?thesis unfolding scaled_output_def by blast
qed

lemma humanize_us_unfold:
  "humanize_us v =
     (if 3600000000 \<le> v then format_scaled v (FloatScale ''h'' (Finite 3600000000 0))
      else if 60000000 \<le> v then format_scaled v (FloatScale ''m'' (Finite 60000000 0))
      else if 1000000 \<le> v then format_scaled v (FloatScale ''s'' (Finite 1000000 0))
      else if 1000 \<le> v then format_scaled v (FloatScale ''ms'' (Finite 1000 0))
      else if 1 \<le> v then Inr (str_int v @ ''us'')
      else Inr ''0us'')"
  by (simp add: humanize_us_def)

lemma humanize_count_unfold:
  "humanize_count c =
     (if 1073741824 \<le> c then format_scaled c (FloatScale ''G'' (Finite 1073741824 0))
      else if 1048576 \<le> c then format_scaled c (FloatScale ''M'' (Finite 1048576 0))
      else if 1024 \<le> c then format_scaled c (FloatScale ''K'' (Finite 1024 0))
      else if 1 \<le> c then Inr (str_int c)
      else Inr ''0'')"
  by (simp add: humanize_count_def)

lemmas float_eval = long_div_float_def long_as_double_def round_double_def bitlen.simps
  round_half_even_def str_nat.simps str_int_def pad3_def digit_def Let_def

lemma bitlen_one: "bitlen (Suc 0) = Suc 0"
  by (simp add: bitlen.simps [of "Suc 0"] bitlen.simps [of 0])

lemma round_half_even_ge: "n div d \<le> round_half_even n d"
  by (simp add: round_half_even_def Let_def)

lemma round_half_even_up:
  assumes "d \<le> 2 * (n mod d)" and "odd (n div d)"
  shows "round_half_even n d = n div d + 1"
  using assms by (simp add: round_half_even_def Let_def)

lemma round_double_long:
  assumes "2 ^ 52 \<le> n"
  shows "round_double n 1 =
           (if 2 ^ 1024 \<le> round_half_even n (2 ^ (bitlen n - 53)) * 2 ^ (bitlen n - 53)
            then Infinity
            else Finite (round_half_even n (2 ^ (bitlen n - 53))) (int (bitlen n - 53)))"
proof -
  have pos: "0 < n" using assms by (cases "n = 0") auto
  from bitlen_bounds [OF pos] have b: "2 ^ (bitlen n - 1) \<le> n" "n < 2 ^ bitlen n" by auto
  from assms b(2) have "(2::nat) ^ 52 < 2 ^ bitlen n" by (rule le_less_trans)
  then have a: "52 < bitlen n" by (rule pow2_less_exp)
  define k where "k = int (bitlen n) - int (bitlen 1)"
  define c where "c = (if 0 \<le> k then 1 * 2 ^ nat k \<le> n else 1 \<le> n * 2 ^ nat (- k))"
  define l where "l = (if c then k else k - 1)"
  define e where "e = max (l - 52) (- 1074)"
  define m where "m = (if 0 \<le> e then round_half_even n (1 * 2 ^ nat e)
               else round_half_even (n * 2 ^ nat (- e)) 1)"
  have rd: "round_double n 1 = (if 0 \<le> e \<and> 2 ^ 1024 \<le> m * 2 ^ nat e then Infinity else Finite m e)"
    by (simp only: round_double_def Let_def k_def c_def l_def e_def m_def)
  have k: "k = int (bitlen n) - 1" by (simp add: k_def bitlen_one)
  then have "nat k = bitlen n - 1" by simp
  with b(1) a k have c by (simp add: c_def)
  then have "l = k" by (simp add: l_def)
  with k a have e: "e = int (bitlen n - 53)" by (simp add: e_def)
  then have "0 \<le> e" "nat e = bitlen n - 53" by simp_all
  then have "m = round_half_even n (2 ^ (bitlen n - 53))" by (simp add: m_def)
  with rd e \<open>nat e = bitlen n - 53\<close> show ?thesis by simp
qed

lemma long_out_of_range:
  assumes "2 ^ 1024 - 2 ^ 970 \<le> n"
  shows "round_double n 1 = Infinity"
proof -
  have "(2::nat) ^ 52 \<le> 2 ^ 1024 - 2 ^ 970" by simp
  with assms have n52: "2 ^ 52 \<le> n" by (rule le_trans [rotated])
  have "(2::nat) ^ 1023 \<le> 2 ^ 1024 - 2 ^ 970" by simp
  with assms have n1023: "2 ^ 1023 \<le> n" by (rule le_trans [rotated])
  have pos: "0 < n" using n52 by (cases "n = 0") auto
  from bitlen_bounds [OF pos] have b: "2 ^ (bitlen n - 1) \<le> n" "n < 2 ^ bitlen n" by auto
  from n1023 b(2) have "(2::nat) ^ 1023 < 2 ^ bitlen n" by (rule le_less_trans)
  then have a: "1023 < bitlen n" by (rule pow2_less_exp)
  define e where "e = bitlen n - 53"
  have big: "2 ^ 1024 \<le> round_half_even n (2 ^ e) * 2 ^ e"
  proof (cases "bitlen n = 1024")
    case True
    then have e: "e = 971" by (simp add: e_def)
    from b(2) True have n: "n < 2 ^ 1024" by simp
    define q where "q = n div 2 ^ 971"
    define r where "r = n mod 2 ^ 971"
    have nqr: "n = q * 2 ^ 971 + r" by (simp only: q_def r_def div_mult_mod_eq)
    have "n < 2 ^ 53 * 2 ^ 971" using n by simp
    then have "q < 2 ^ 53"
      unfolding q_def by (simp only: div_less_iff_less_mult zero_less_power zero_less_numeral)
    moreover have "(2 ^ 53 - 1) * 2 ^ 971 \<le> n"
    proof -
      have "(2 ^ 53 - 1) * 2 ^ 971 \<le> (2::nat) ^ 1024 - 2 ^ 970" by simp
      then show ?thesis using assms by (rule le_trans)
    qed
    then have "2 ^ 53 - 1 \<le> q"
      unfolding q_def by (simp only: less_eq_div_iff_mult_less_eq zero_less_power zero_less_numeral)
    ultimately have q: "q = 2 ^ 53 - 1" by linarith
    have "(2 ^ 53 - 1) * 2 ^ 971 + 2 ^ 970 \<le> q * 2 ^ 971 + r"
    proof -
      have "(2 ^ 53 - 1) * 2 ^ 971 + 2 ^ 970 = (2::nat) ^ 1024 - 2 ^ 970" by simp
      with assms nqr show ?thesis by simp
    qed
    then have "2 ^ 970 \<le> r" by (simp only: q add_le_cancel_left)
    then have half: "2 ^ 971 \<le> 2 * r" by simp
    have "odd q" by (simp add: q)
    with half have "round_half_even n (2 ^ 971) = q + 1"
      unfolding q_def r_def by (intro round_half_even_up)
    then have "round_half_even n (2 ^ 971) = 2 ^ 53" by (simp add: q)
    then show ?thesis by (simp add: e)
  next
    case False
    with a have a': "1024 < bitlen n" by simp
    then have split: "bitlen n - 1 = 52 + e" and e: "972 \<le> e" by (simp_all add: e_def)
    have "(2::nat) ^ 52 * 2 ^ e = 2 ^ (bitlen n - 1)"
      by (simp only: split power_add)
    with b(1) have "2 ^ 52 * 2 ^ e \<le> n" by simp
    then have "2 ^ 52 \<le> n div 2 ^ e"
      by (simp only: less_eq_div_iff_mult_less_eq zero_less_power zero_less_numeral)
    with round_half_even_ge [of n "2 ^ e"] have "2 ^ 52 \<le> round_half_even n (2 ^ e)"
      by (rule le_trans [rotated])
    then have "2 ^ 52 * 2 ^ e \<le> round_half_even n (2 ^ e) * 2 ^ e"
      by (rule mult_le_mono1)
    moreover have "(2::nat) ^ 1024 \<le> 2 ^ (52 + e)"
      using e by (intro pow2_le_mono) simp
    then have "(2::nat) ^ 1024 \<le> 2 ^ 52 * 2 ^ e" by (simp only: power_add)
    ultimately show ?thesis by (rule le_trans [rotated])
  qed
  show ?thesis
    using big by (simp only: round_double_long [OF n52] e_def if_True)
qed

lemma long_as_double_overflow:
  assumes "2 ^ 1024 - 2 ^ 970 \<le> n"
  shows "long_as_double n = Inl OverflowError"
proof -
  have "round_double n 1 = Infinity" by (rule long_out_of_range [OF assms])
  then show ?thesis by (simp only: long_as_double_def double.case)
qed

lemma humanize_overflow:
  assumes "2 ^ 1024 - 2 ^ 970 \<le> v"
  shows "humanize_us v = Inl OverflowError" and "humanize_count v = Inl OverflowError"
proof -
  have "int ((2::nat) ^ 1024 - 2 ^ 970) = 2 ^ 1024 - 2 ^ 970" by simp
  with assms have "2 ^ 1024 - 2 ^ 970 \<le> nat v"
    by (simp only: nat_le_iff [symmetric] le_nat_iff)
  then have ov: "long_as_double (nat v) = Inl OverflowError"
    by (rule long_as_double_overflow)
  have "(3600000000::int) \<le> 2 ^ 1024 - 2 ^ 970" by simp
  with assms have "3600000000 \<le> v" by (rule order_trans [rotated])
  then show "humanize_us v = Inl OverflowError"
    by (simp add: humanize_us_unfold long_div_float_def ov)
  have "(1073741824::int) \<le> 2 ^ 1024 - 2 ^ 970" by simp
  with assms have "1073741824 \<le> v" by (rule order_trans [rotated])
  then show "humanize_count v = Inl OverflowError"
    by (simp add: humanize_count_unfold long_div_float_def ov)
qed

subsection \<open>The claims on the scaled formats\<close>

text \<open>
  Claim C6, as the code has it. For every microsecond count \<open>v\<close> with
  \<open>0 \<le> v < 2 ^ 1024 - 2 ^ 970\<close> (the longs that \<^verbatim>\<open>float()\<close> can convert), \<^verbatim>\<open>humanize_us\<close> takes
  the largest of the scales 3600e6, 60e6, 1e6, 1e3, 1 that \<open>v\<close> meets or exceeds, tested
  largest first. At a float scale it returns the double quotient \<^verbatim>\<open>v / scale\<close> printed with
  \<^verbatim>\<open>'%.3f'\<close>, always an integer part, a point and three decimals, with the suffix h, m, s or
  ms; whole microseconds (\<open>1 \<le> v < 1000\<close>) are printed as the integer with the suffix us;
  0 gives \<^verbatim>\<open>"0us"\<close>. From \<open>2 ^ 1024 - 2 ^ 970\<close> on the call raises \<^verbatim>\<open>OverflowError\<close>. In particular 3661000000 gives \<^verbatim>\<open>"1.017h"\<close>, 1000 gives \<^verbatim>\<open>"1.000ms"\<close> (not
  \<^verbatim>\<open>"1000us"\<close>), 999 gives \<^verbatim>\<open>"999us"\<close> and 0 gives \<^verbatim>\<open>"0us"\<close>.
\<close>

theorem humanize_us_scaled:
  assumes "0 \<le> v" and "v < 2 ^ 1024 - 2 ^ 970"
  shows "(3600000000 \<le> v \<longrightarrow> scaled_output v 3600000000 ''h'' (humanize_us v))
       \<and> (60000000 \<le> v \<and> v < 3600000000 \<longrightarrow> scaled_output v 60000000 ''m'' (humanize_us v))
       \<and> (1000000 \<le> v \<and> v < 60000000 \<longrightarrow> scaled_output v 1000000 ''s'' (humanize_us v))
       \<and> (1000 \<le> v \<and> v < 1000000 \<longrightarrow> scaled_output v 1000 ''ms'' (humanize_us v))
       \<and> (1 \<le> v \<and> v < 1000 \<longrightarrow> humanize_us v = Inr (str_int v @ ''us''))
       \<and> (v = 0 \<longrightarrow> humanize_us v = Inr ''0us'')
       \<and> (2 ^ 1024 - 2 ^ 970 \<le> w \<longrightarrow> humanize_us w = Inl OverflowError)
       \<and> humanize_us 3661000000 = Inr ''1.017h'' \<and> humanize_us 1000 = Inr ''1.000ms''
       \<and> humanize_us 999 = Inr ''999us'' \<and> humanize_us 0 = Inr ''0us''"
proof (intro conjI impI)
  show "humanize_us w = Inl OverflowError" if "2 ^ 1024 - 2 ^ 970 \<le> w"
    using that by (rule humanize_overflow(1))
  show "scaled_output v 3600000000 ''h'' (humanize_us v)" if "3600000000 \<le> v"
    using that scaled_outputI [OF assms, of 3600000000 "''h''"] by (simp add: humanize_us_unfold)
  show "scaled_output v 60000000 ''m'' (humanize_us v)" if "60000000 \<le> v \<and> v < 3600000000"
    using that scaled_outputI [OF assms, of 60000000 "''m''"] by (simp add: humanize_us_unfold)
  show "scaled_output v 1000000 ''s'' (humanize_us v)" if "1000000 \<le> v \<and> v < 60000000"
    using that scaled_outputI [OF assms, of 1000000 "''s''"] by (simp add: humanize_us_unfold)
  show "scaled_output v 1000 ''ms'' (humanize_us v)" if "1000 \<le> v \<and> v < 1000000"
    using that scaled_outputI [OF assms, of 1000 "''ms''"] by (simp add: humanize_us_unfold)
  show "humanize_us v = Inr (str_int v @ ''us'')" if "1 \<le> v \<and> v < 1000"
    using that by (simp add: humanize_us_unfold)
  show "humanize_us v = Inr ''0us''" if "v = 0"
    using that by (simp add: humanize_us_unfold)
  show "humanize_us 3661000000 = Inr ''1.017h''"
    by (simp add: humanize_us_unfold float_eval)
  show "humanize_us 1000 = Inr ''1.000ms''"
    by (simp add: humanize_us_unfold float_eval)
  show "humanize_us 999 = Inr ''999us''"
    by (simp add: humanize_us_unfold float_eval)
  show "humanize_us 0 = Inr ''0us''"
    by (simp add: humanize_us_unfold)
qed

theorem humanize_us_scaled_witness:
  "scaled_output 1234567 1000000 ''s'' (Inr ''1.235s'')"
proof -
  have ev: "humanize_us 1234567 = Inr ''1.235s''"
    by (simp add: humanize_us_unfold float_eval)
  have "(0::int) \<le> 1234567" "(1234567::int) < 2 ^ 1024 - 2 ^ 970" by simp_all
  from humanize_us_scaled [OF this] have "scaled_output 1234567 1000000 ''s'' (humanize_us 1234567)"
    by simp
  then show ?thesis by (simp only: ev)
qed

text \<open>
  The claim as stated, for every count that is not negative, fails at the first long that
  \<^verbatim>\<open>float()\<close> rounds to \<open>2 ^ 1024\<close>: the division raises \<^verbatim>\<open>OverflowError\<close> and nothing is
  formatted.
\<close>

theorem humanize_us_overflow:
  "humanize_us (2 ^ 1024 - 2 ^ 970) = Inl OverflowError"
  by (rule humanize_overflow(1)) simp

text \<open>
  Claim C9, as the code has it. For every count \<open>c\<close> with \<open>0 \<le> c < 2 ^ 1024 - 2 ^ 970\<close>,
  \<^verbatim>\<open>humanize_count\<close> takes the largest of the binary scales \<open>2 ^ 30\<close> (G), \<open>2 ^ 20\<close> (M),
  \<open>2 ^ 10\<close> (K), 1 that \<open>c\<close> meets or exceeds, tested largest first. At a float scale it
  returns the double quotient \<^verbatim>\<open>c / scale\<close> printed with \<^verbatim>\<open>'%.3f'\<close> and the suffix; a count
  below \<open>2 ^ 10\<close> is printed as the integer, without decimals; 0 gives \<^verbatim>\<open>"0"\<close>. From
  \<open>2 ^ 1024 - 2 ^ 970\<close> on the call raises \<^verbatim>\<open>OverflowError\<close>. In particular
  1024 gives \<^verbatim>\<open>"1.000K"\<close> and 0 gives \<^verbatim>\<open>"0"\<close>.
\<close>

theorem humanize_count_scaled:
  assumes "0 \<le> c" and "c < 2 ^ 1024 - 2 ^ 970"
  shows "(2 ^ 30 \<le> c \<longrightarrow> scaled_output c (2 ^ 30) ''G'' (humanize_count c))
       \<and> (2 ^ 20 \<le> c \<and> c < 2 ^ 30 \<longrightarrow> scaled_output c (2 ^ 20) ''M'' (humanize_count c))
       \<and> (2 ^ 10 \<le> c \<and> c < 2 ^ 20 \<longrightarrow> scaled_output c (2 ^ 10) ''K'' (humanize_count c))
       \<and> (1 \<le> c \<and> c < 2 ^ 10 \<longrightarrow> humanize_count c = Inr (str_int c))
       \<and> (c = 0 \<longrightarrow> humanize_count c = Inr ''0'')
       \<and> (2 ^ 1024 - 2 ^ 970 \<le> w \<longrightarrow> humanize_count w = Inl OverflowError)
       \<and> humanize_count 1024 = Inr ''1.000K'' \<and> humanize_count 0 = Inr ''0''"
proof (intro conjI impI)
  show "humanize_count w = Inl OverflowError" if "2 ^ 1024 - 2 ^ 970 \<le> w"
    using that by (rule humanize_overflow(2))
  show "scaled_output c (2 ^ 30) ''G'' (humanize_count c)" if "2 ^ 30 \<le> c"
    using that scaled_outputI [OF assms, of "2 ^ 30" "''G''"] by (simp add: humanize_count_unfold)
  show "scaled_output c (2 ^ 20) ''M'' (humanize_count c)" if "2 ^ 20 \<le> c \<and> c < 2 ^ 30"
    using that scaled_outputI [OF assms, of "2 ^ 20" "''M''"] by (simp add: humanize_count_unfold)
  show "scaled_output c (2 ^ 10) ''K'' (humanize_count c)" if "2 ^ 10 \<le> c \<and> c < 2 ^ 20"
    using that scaled_outputI [OF assms, of "2 ^ 10" "''K''"] by (simp add: humanize_count_unfold)
  show "humanize_count c = Inr (str_int c)" if "1 \<le> c \<and> c < 2 ^ 10"
    using that by (simp add: humanize_count_unfold)
  show "humanize_count c = Inr ''0''" if "c = 0"
    using that by (simp add: humanize_count_unfold)
  show "humanize_count 1024 = Inr ''1.000K''"
    by (simp add: humanize_count_unfold float_eval)
  show "humanize_count 0 = Inr ''0''"
    by (simp add: humanize_count_unfold)
qed

theorem humanize_count_scaled_witness:
  "scaled_output 1536 (2 ^ 10) ''K'' (Inr ''1.500K'') \<and> humanize_count 7 = Inr ''7''"
proof -
  have ev: "humanize_count 1536 = Inr ''1.500K''"
    by (simp add: humanize_count_unfold float_eval)
  have "(0::int) \<le> 1536" "(1536::int) < 2 ^ 1024 - 2 ^ 970" by simp_all
  from humanize_count_scaled [OF this]
  have "scaled_output 1536 (2 ^ 10) ''K'' (humanize_count 1536)"
    by simp
  moreover have "humanize_count 7 = Inr ''7''"
    by (simp add: humanize_count_unfold float_eval)
  ultimately show ?thesis by (simp only: ev)
qed

text \<open>
  The claim as stated, for every count that is not negative, fails in the same way: from
  \<open>2 ^ 1024 - 2 ^ 970\<close> on the conversion to a float raises \<^verbatim>\<open>OverflowError\<close>.
\<close>

theorem humanize_count_overflow:
  "humanize_count (2 ^ 1024 - 2 ^ 970) = Inl OverflowError"
  by (rule humanize_overflow(2)) simp

section \<open>Properties of the connection descriptor\<close>



text \<open>
  Claim C4, as the code has it. A port that is true is coerced with \<^verbatim>\<open>int()\<close>: a non-empty
  string that is not an integer literal makes the construction fail with \<^verbatim>\<open>ValueError\<close> (the
  configuration error of the specification) and no descriptor exists; a port that is not
  true becomes 3306. The constructor has no positivity check: an int other than 0 is stored
  as it is, negative or not, and whenever a descriptor is produced from a true port, its
  port is the value \<^verbatim>\<open>int()\<close> returned.
\<close>

theorem DatabaseSpec_port_coercion:
  "(s \<noteq> [] \<and> int_of_str s = None \<longrightarrow>
      DatabaseSpec_init h (PyStr s) u pw db dr = Inl (ValueError s))
   \<and> (n \<noteq> 0 \<longrightarrow> (\<exists>d. DatabaseSpec_init h (PyInt n) u pw db dr = Inr d \<and> port d = n))
   \<and> (\<forall>d. DatabaseSpec_init h p u pw db dr = Inr d \<longrightarrow>
          (if truthy p then py_int p = Inr (port d) else port d = 3306))"
  by (auto simp: DatabaseSpec_init_def split: sum.splits)

lemmas int_eval = int_of_str_def is_space_def is_digit_def digits_value_def digit_value_def

theorem DatabaseSpec_port_coercion_witness:
  "DatabaseSpec_init PyNone (PyStr ''abc'') PyNone PyNone PyNone PyNone = Inl (ValueError ''abc'')
   \<and> (\<exists>d. DatabaseSpec_init PyNone (PyInt (- 1)) PyNone PyNone PyNone PyNone = Inr d
          \<and> port d = - 1)"
proof -
  have "''abc'' \<noteq> [] \<and> int_of_str ''abc'' = None"
    by (simp add: int_eval)
  with DatabaseSpec_port_coercion [of "''abc''" PyNone PyNone PyNone PyNone PyNone "- 1"]
  show ?thesis by simp
qed

text \<open>
  The claim as stated fails: a negative port, and the port \<^verbatim>\<open>"0"\<close>, pass the constructor and
  give descriptors whose port is not positive.
\<close>

theorem DatabaseSpec_nonpositive_port:
  "DatabaseSpec_call None (Some (PyInt (- 1))) None None None None
     = Inr (default_spec\<lparr>port := - 1\<rparr>)
   \<and> DatabaseSpec_call None (Some (PyStr ''0'')) None None None None
     = Inr (default_spec\<lparr>port := 0\<rparr>)"
  by (simp add: DatabaseSpec_call_def DatabaseSpec_init_def int_eval)

section \<open>Properties of the driver invocation\<close>

lemmas csv_eval = read_statistics_def parse_reset_def parse_process_char_def start_field_def
  parse_save_field_def parse_add_char_def int_eval

lemmas cmd_eval = dbbench_command_def command_line_def dirname_def str_int_def
  str_nat.simps digit_def Let_def

lemma init_error_kind:
  assumes "QueryStatistic_init row = Inl e"
  shows "(\<exists>n. e = TypeError (WrongArgCount n)) \<or> (\<exists>s. e = ValueError s)"
  using assms by (cases row rule: QueryStatistic_init.cases) (auto split: option.splits)

lemma malformed_init:
  "malformed row \<longleftrightarrow> (\<exists>e. QueryStatistic_init row = Inl e)"
  by (cases row rule: QueryStatistic_init.cases) (auto simp: malformed_def split: option.splits)

lemma init_ok_fields:
  assumes "QueryStatistic_init row = Inr q"
  shows "\<exists>n s e a. row = [n, s, e, a] \<and> name q = n \<and> int_of_str s = Some (startMicros q)
           \<and> int_of_str e = Some (elapsedMicros q) \<and> int_of_str a = Some (rowsAffected q)"
  using assms by (cases row rule: QueryStatistic_init.cases) (auto split: option.splits)

lemma construct_all_error:
  assumes "row \<in> set rows" and "QueryStatistic_init row = Inl e'"
  shows "\<exists>e bad. construct_all rows = Inl e \<and> bad \<in> set rows \<and> QueryStatistic_init bad = Inl e"
  using assms
proof (induction rows)
  case Nil
  then show ?case by simp
next
  case (Cons r rows)
  show ?case
  proof (cases "QueryStatistic_init r")
    case (Inl e)
    then show ?thesis by auto
  next
    case (Inr q)
    with Cons.prems have "row \<in> set rows" by auto
    from Cons.IH [OF this Cons.prems(2)] obtain e bad
      where "construct_all rows = Inl e" "bad \<in> set rows" "QueryStatistic_init bad = Inl e"
      by blast
    with Inr show ?thesis by auto
  qed
qed

lemma construct_all_ok:
  assumes "construct_all rows = Inr qs"
  shows "list_all2 (\<lambda>row q. QueryStatistic_init row = Inr q) rows qs"
  using assms
  by (induction rows arbitrary: qs) (auto split: sum.splits)

lemma digit_value_nth:
  assumes "k < 10"
  shows "digit_value (''0123456789'' ! k) = k"
proof -
  from assms have "k \<in> {0, 1, 2, 3, 4, 5, 6, 7, 8, 9}" by auto
  then show ?thesis by (auto simp: digit_value_def)
qed

lemma digit_value_digit: "digit_value (digit n) = n mod 10"
  by (simp add: digit_def digit_value_nth)

lemma digit_mod: "digit (n mod 10) = digit n"
  by (simp add: digit_def)

lemma digits_value_snoc: "digits_value (ds @ [c]) = 10 * digits_value ds + digit_value c"
  by (simp add: digits_value_def)

lemma digits_value_str_nat: "digits_value (str_nat n) = n"
proof (induction n rule: str_nat.induct)
  case (1 n)
  show ?case
  proof (cases "n < 10")
    case True
    then show ?thesis
      by (subst str_nat.simps) (simp add: digits_value_def digit_value_digit)
  next
    case False
    with 1 have "digits_value (str_nat (n div 10)) = n div 10" by simp
    with False show ?thesis
      by (subst str_nat.simps) (simp add: digits_value_snoc digit_value_digit)
  qed
qed

lemma is_digit_plain: "is_digit c \<Longrightarrow> \<not> is_space c \<and> c \<noteq> CHR ''-'' \<and> c \<noteq> CHR ''+''"
  by (auto simp: is_digit_def is_space_def)

lemma int_of_str_digits:
  assumes "ds \<noteq> []" and "list_all is_digit ds"
  shows "int_of_str ds = Some (int (digits_value ds))"
    and "int_of_str (CHR ''-'' # ds) = Some (- int (digits_value ds))"
proof -
  from assms obtain c cs where ds: "ds = c # cs" and c: "is_digit c"
    and cs: "list_all is_digit cs" by (cases ds) auto
  have t: "takeWhile is_digit cs = cs" and d: "dropWhile is_digit cs = []"
    using cs by (simp_all add: list_all_iff)
  have minus: "\<not> is_space (CHR ''-'')" by (simp add: is_space_def)
  note plain = is_digit_plain [OF c]
  show "int_of_str ds = Some (int (digits_value ds))"
    using plain c by (simp add: int_of_str_def Let_def ds t d)
  show "int_of_str (CHR ''-'' # ds) = Some (- int (digits_value ds))"
    using plain c by (simp add: int_of_str_def Let_def ds minus t d)
qed

lemma int_of_str_str_int: "int_of_str (str_int i) = Some i"
  using int_of_str_digits [of "str_nat (nat i)"] int_of_str_digits [of "str_nat (nat (- i))"]
    str_nat_digits [of "nat i"] str_nat_digits [of "nat (- i)"]
  by (simp add: str_int_def digits_value_str_nat)

lemma default_command:
  "dbbench_command default_spec cfg None f =
     Inr [''dbbench'', ''--database'', [], ''--host'', ''localhost'', ''--port'', ''3306'',
          ''--username'', ''root'', ''--password'', [], ''--intermediate-stats=false'',
          ''--query-stats-file'', f, ''--base-dir'', dirname cfg, cfg]"
  by (simp add: dbbench_command_def command_line_def str_int_def str_nat.simps digit_def)

text \<open>
  Claim C5. Whenever the external process exits with a code other than 0, the invocation
  fails with the error of \<^verbatim>\<open>subprocess.check_output\<close>, \<^verbatim>\<open>CalledProcessError\<close> (the benchmark
  execution error of the specification), which carries the exit code and the captured
  combined output; the statistics file is not read and no result is returned.
\<close>

theorem RunDbbench_nonzero_exit:
  assumes "dbbench_command dbspec cfg basedir f = Inr cmd"
    and "env cmd = Some r" and "returncode r \<noteq> 0"
  shows "RunDbbench env f dbspec cfg basedir =
           Inl (CalledProcessError (returncode r) cmd (combined_output r))"
  using assms by (simp add: RunDbbench_def)

theorem RunDbbench_nonzero_exit_witness:
  "RunDbbench (\<lambda>cmd. Some \<lparr>returncode = 2, combined_output = ''no route to host'',
                            stats = ''q1,0,500,10''\<rparr>)
     ''/tmp/stats.csv'' default_spec ''/etc/bench/run.ini'' None =
   Inl (CalledProcessError 2
         [''dbbench'', ''--database'', [], ''--host'', ''localhost'', ''--port'', ''3306'',
          ''--username'', ''root'', ''--password'', [], ''--intermediate-stats=false'',
          ''--query-stats-file'', ''/tmp/stats.csv'', ''--base-dir'', ''/etc/bench'',
          ''/etc/bench/run.ini'']
         ''no route to host'')"
proof -
  have cmd: "dbbench_command default_spec ''/etc/bench/run.ini'' None ''/tmp/stats.csv'' =
     Inr [''dbbench'', ''--database'', [], ''--host'', ''localhost'', ''--port'', ''3306'',
          ''--username'', ''root'', ''--password'', [], ''--intermediate-stats=false'',
          ''--query-stats-file'', ''/tmp/stats.csv'', ''--base-dir'', ''/etc/bench'',
          ''/etc/bench/run.ini'']"
    by (simp add: default_command dirname_def)
  show ?thesis
    using RunDbbench_nonzero_exit [OF cmd, of _
        "\<lparr>returncode = 2, combined_output = ''no route to host'', stats = ''q1,0,500,10''\<rparr>"]
    by simp
qed

text \<open>
  Claim C7. A result channel with the rows \<^verbatim>\<open>q1,0,500,10\<close> and \<^verbatim>\<open>q2,500,1200,3\<close> gives exactly
  two records, in that order, whose numeric fields are the integers of the input. In
  general, whenever the invocation returns, it returns one record per row of the channel,
  the i-th record built from the i-th row: its name is the first field and its three
  numbers are the exact integers \<^verbatim>\<open>int()\<close> reads from the other fields. Nothing is reordered.
  \<^verbatim>\<open>int()\<close> reads the decimal numeral of every integer, of any size, back as that integer.
\<close>

theorem RunDbbench_rows_in_order:
  "RunDbbench (channel (''q1,0,500,10'' @ [NL] @ ''q2,500,1200,3'' @ [NL])) f default_spec cfg None =
     Inr [\<lparr>name = ''q1'', startMicros = 0, elapsedMicros = 500, rowsAffected = 10\<rparr>,
          \<lparr>name = ''q2'', startMicros = 500, elapsedMicros = 1200, rowsAffected = 3\<rparr>]
   \<and> (RunDbbench env f dbspec cfg basedir = Inr qs \<longrightarrow>
        (\<exists>cmd r rows. dbbench_command dbspec cfg basedir f = Inr cmd \<and> env cmd = Some r
           \<and> returncode r = 0 \<and> csv_reader parse_reset (file_lines (stats r)) = (rows, None)
           \<and> length qs = length rows
           \<and> (\<forall>i<length rows. \<exists>n s e a. rows ! i = [n, s, e, a] \<and> name (qs ! i) = n
                 \<and> int_of_str s = Some (startMicros (qs ! i))
                 \<and> int_of_str e = Some (elapsedMicros (qs ! i))
                 \<and> int_of_str a = Some (rowsAffected (qs ! i)))))
   \<and> int_of_str (str_int i) = Some i"
proof (intro conjI impI)
  show "int_of_str (str_int i) = Some i"
    by (rule int_of_str_str_int)
next
  show "RunDbbench (channel (''q1,0,500,10'' @ [NL] @ ''q2,500,1200,3'' @ [NL])) f default_spec cfg None =
     Inr [\<lparr>name = ''q1'', startMicros = 0, elapsedMicros = 500, rowsAffected = 10\<rparr>,
          \<lparr>name = ''q2'', startMicros = 500, elapsedMicros = 1200, rowsAffected = 3\<rparr>]"
    by (simp add: RunDbbench_def default_command csv_eval)
next
  assume ok: "RunDbbench env f dbspec cfg basedir = Inr qs"
  then obtain cmd r where c: "dbbench_command dbspec cfg basedir f = Inr cmd"
    "env cmd = Some r" "returncode r = 0" "read_statistics (stats r) = Inr qs"
    by (auto simp: RunDbbench_def split: sum.splits option.splits if_splits)
  obtain rows err where rd: "csv_reader parse_reset (file_lines (stats r)) = (rows, err)"
    by (cases "csv_reader parse_reset (file_lines (stats r))") auto
  from c(4) rd have ca: "construct_all rows = Inr qs" and err: "err = None"
    by (auto simp: read_statistics_def split: sum.splits option.splits)
  from construct_all_ok [OF ca]
  have l2: "list_all2 (\<lambda>row q. QueryStatistic_init row = Inr q) rows qs" .
  then have len: "length qs = length rows"
    by (simp add: list_all2_lengthD)
  have "\<exists>n s e a. rows ! i = [n, s, e, a] \<and> name (qs ! i) = n
                 \<and> int_of_str s = Some (startMicros (qs ! i))
                 \<and> int_of_str e = Some (elapsedMicros (qs ! i))
                 \<and> int_of_str a = Some (rowsAffected (qs ! i))" if "i < length rows" for i
    using init_ok_fields [OF list_all2_nthD [OF l2 that]] .
  with c rd err len
  show "\<exists>cmd r rows. dbbench_command dbspec cfg basedir f = Inr cmd \<and> env cmd = Some r
           \<and> returncode r = 0 \<and> csv_reader parse_reset (file_lines (stats r)) = (rows, None)
           \<and> length qs = length rows
           \<and> (\<forall>i<length rows. \<exists>n s e a. rows ! i = [n, s, e, a] \<and> name (qs ! i) = n
                 \<and> int_of_str s = Some (startMicros (qs ! i))
                 \<and> int_of_str e = Some (elapsedMicros (qs ! i))
                 \<and> int_of_str a = Some (rowsAffected (qs ! i)))"
    by blast
qed

theorem RunDbbench_rows_in_order_witness:
  "\<exists>rows. csv_reader parse_reset (file_lines (''b,7,8,9'' @ [NL] @ ''a,1,2,3'')) = (rows, None)
     \<and> length [\<lparr>name = ''b'', startMicros = 7, elapsedMicros = 8, rowsAffected = 9\<rparr>,
               \<lparr>name = ''a'', startMicros = 1, elapsedMicros = 2, rowsAffected = 3\<rparr>] = length rows"
proof -
  have "RunDbbench (channel (''b,7,8,9'' @ [NL] @ ''a,1,2,3'')) ''/tmp/stats.csv'' default_spec
          ''/etc/bench/run.ini'' None =
        Inr [\<lparr>name = ''b'', startMicros = 7, elapsedMicros = 8, rowsAffected = 9\<rparr>,
             \<lparr>name = ''a'', startMicros = 1, elapsedMicros = 2, rowsAffected = 3\<rparr>]"
    by (simp add: RunDbbench_def default_command csv_eval)
  with RunDbbench_rows_in_order
      [where env = "channel (''b,7,8,9'' @ [NL] @ ''a,1,2,3'')" and f = "''/tmp/stats.csv''"
         and dbspec = default_spec and cfg = "''/etc/bench/run.ini''" and basedir = None]
  show ?thesis by force
qed

text \<open>
  Claim C3, as the code has it. When a row of the result channel is malformed (it does not
  have four fields, or a numeric field is not an integer literal), the invocation fails and
  returns no records, not even those of the rows before it. The error is the one the
  constructor raised on a row of the channel: \<^verbatim>\<open>TypeError\<close> for a wrong field count, carrying
  only the number of arguments, or \<^verbatim>\<open>ValueError\<close> for a numeric field, carrying only the text
  of that field. There is no \<^verbatim>\<open>ResultParseError\<close>, and the error names neither the row nor
  its position.
\<close>

theorem RunDbbench_malformed_row:
  assumes "dbbench_command dbspec cfg basedir f = Inr cmd"
    and "env cmd = Some r" and "returncode r = 0"
    and "csv_reader parse_reset (file_lines (stats r)) = (rows, err)"
    and "row \<in> set rows" and "malformed row"
  shows "\<exists>e bad. RunDbbench env f dbspec cfg basedir = Inl e
           \<and> bad \<in> set rows \<and> QueryStatistic_init bad = Inl e
           \<and> ((\<exists>n. e = TypeError (WrongArgCount n)) \<or> (\<exists>s. e = ValueError s))"
proof -
  from assms(6) obtain e' where "QueryStatistic_init row = Inl e'"
    by (auto simp: malformed_init)
  from construct_all_error [OF assms(5) this] obtain e bad
    where e: "construct_all rows = Inl e" "bad \<in> set rows" "QueryStatistic_init bad = Inl e"
    by blast
  have "RunDbbench env f dbspec cfg basedir = Inl e"
    using assms(1-4) e(1) by (simp add: RunDbbench_def read_statistics_def)
  with e init_error_kind [OF e(3)] show ?thesis by blast
qed

theorem RunDbbench_malformed_row_witness:
  "\<exists>e. RunDbbench (channel (''q1,0,500,10'' @ [NL] @ ''zz,7,8'' @ [NL])) ''/tmp/stats.csv''
          default_spec ''/etc/bench/run.ini'' None = Inl e
      \<and> ((\<exists>n. e = TypeError (WrongArgCount n)) \<or> (\<exists>s. e = ValueError s))"
proof -
  have rows: "csv_reader parse_reset (file_lines (stats
       \<lparr>returncode = 0, combined_output = [], stats = ''q1,0,500,10'' @ [NL] @ ''zz,7,8'' @ [NL]\<rparr>))
     = ([[''q1'', ''0'', ''500'', ''10''], [''zz'', ''7'', ''8'']], None)"
    by (simp add: csv_eval)
  have bad: "malformed [''zz'', ''7'', ''8'']"
    by (simp add: malformed_def)
  from RunDbbench_malformed_row
      [where env = "channel (''q1,0,500,10'' @ [NL] @ ''zz,7,8'' @ [NL])",
       OF default_command [of "''/etc/bench/run.ini''" "''/tmp/stats.csv''"] _ _ rows _ bad]
  show ?thesis by auto
qed

text \<open>
  The claim as stated fails: a three-field row raises \<^verbatim>\<open>TypeError\<close> with the argument count
  only. The same error value comes back whether the offending row is the first row
  \<^verbatim>\<open>a,1,2\<close> or the second row \<^verbatim>\<open>zz,7,8\<close>, so it cannot identify the row; and a bad number raises
  \<^verbatim>\<open>ValueError\<close> with the field text only.
\<close>

theorem RunDbbench_error_hides_row:
  "RunDbbench (channel (''a,1,2'' @ [NL])) ''/tmp/stats.csv'' default_spec ''/etc/bench/run.ini'' None
     = Inl (TypeError (WrongArgCount 4))
   \<and> RunDbbench (channel (''q1,0,500,10'' @ [NL] @ ''zz,7,8'' @ [NL])) ''/tmp/stats.csv''
        default_spec ''/etc/bench/run.ini'' None
     = Inl (TypeError (WrongArgCount 4))
   \<and> RunDbbench (channel (''q1,0,500,10'' @ [NL] @ ''q2,x,1200,3'' @ [NL])) ''/tmp/stats.csv''
        default_spec ''/etc/bench/run.ini'' None
     = Inl (ValueError ''x'')"
  by (simp add: RunDbbench_def default_command csv_eval)

section \<open>Properties of the normalizer\<close>

subsection \<open>Lines and their comments\<close>

lemma split_nl_nonempty: "split_nl s \<noteq> []"
  by (induction s) (auto split: list.splits)

lemma split_nl_no_newline: "l \<in> set (split_nl s) \<Longrightarrow> NL \<notin> set l"
  by (induction s arbitrary: l) (auto split: list.splits if_splits)

lemma split_nl_single: "NL \<notin> set s \<Longrightarrow> split_nl s = [s]"
  by (induction s) auto

lemma dropWhile_not_nl: "NL \<notin> set s \<Longrightarrow> dropWhile (\<lambda>x. x \<noteq> NL) s = []"
  by (induction s) auto

lemma sub_comment_strip: "NL \<notin> set l \<Longrightarrow> sub_comment l = strip_line_comment l"
proof (induction l rule: strip_line_comment.induct)
  case (1 c d rest)
  then show ?case
    by (auto simp: sub_comment.simps(2) match_comment_def dropWhile_not_nl)
qed (simp_all add: sub_comment.simps(2) match_comment_def)

lemma strip_line_comment_subset: "set (strip_line_comment l) \<subseteq> set l"
  by (induction l rule: strip_line_comment.induct) auto

lemma join_sp_Cons: "ws \<noteq> [] \<Longrightarrow> join_sp (w # ws) = w @ SP # join_sp ws"
  by (cases ws) auto

lemma set_join_sp: "set (join_sp ls) \<subseteq> insert SP (\<Union> (set ` set ls))"
  by (induction ls rule: join_sp.induct) auto

subsection \<open>Spaces\<close>

lemma match_trailing_nlfree:
  "NL \<notin> set cs \<Longrightarrow>
     match_trailing (c # cs) =
       (if c = SP \<and> dropWhile (\<lambda>x. x = SP) cs = [] then Some [] else None)"
proof -
  assume "NL \<notin> set cs"
  then have "dropWhile (\<lambda>x. x = SP) cs \<noteq> [NL]"
    by (metis list.set_intros(1) set_dropWhileD)
  then show ?thesis by (simp add: match_trailing_def)
qed

lemma words_of_dropWhile: "words_of (dropWhile (\<lambda>x. x = SP) t) = words_of t"
  by (induction t) auto

lemma words_of_Nil_iff: "words_of t = [] \<longleftrightarrow> dropWhile (\<lambda>x. x = SP) t = []"
  by (induction t) auto

lemma scan_nonsp: "c \<noteq> SP \<Longrightarrow> scan_trailing (c # cs) = c # scan_trailing cs"
  by (simp add: scan_trailing.simps(2) match_trailing_def)

lemma dropWhile_scan:
  "NL \<notin> set cs \<Longrightarrow> dropWhile (\<lambda>x. x = SP) cs \<noteq> [] \<Longrightarrow>
     dropWhile (\<lambda>x. x = SP) (scan_trailing cs) = scan_trailing (dropWhile (\<lambda>x. x = SP) cs)"
proof (induction cs)
  case Nil
  then show ?case by simp
next
  case (Cons c cs)
  show ?case
  proof (cases "c = SP")
    case True
    with Cons.prems have "match_trailing (c # cs) = None"
      by (simp add: match_trailing_nlfree)
    with True Cons show ?thesis by (simp add: scan_trailing.simps(2))
  next
    case False
    then show ?thesis by (simp add: scan_nonsp)
  qed
qed

lemma collapse_after_space:
  assumes "NL \<notin> set cs"
  shows "sub_spaces (scan_trailing (SP # cs)) =
           (if dropWhile (\<lambda>x. x = SP) cs = [] then []
            else SP # sub_spaces (scan_trailing (dropWhile (\<lambda>x. x = SP) cs)))"
proof (cases "dropWhile (\<lambda>x. x = SP) cs = []")
  case True
  with assms show ?thesis by (simp add: scan_trailing.simps(2) match_trailing_nlfree)
next
  case False
  with assms have "match_trailing (SP # cs) = None"
    by (simp add: match_trailing_nlfree)
  with False assms show ?thesis by (simp add: scan_trailing.simps(2) dropWhile_scan)
qed

lemma collapse_word:
  "\<forall>x\<in>set w. x \<noteq> SP \<Longrightarrow>
     sub_spaces (scan_trailing (w @ r)) = w @ sub_spaces (scan_trailing r)"
  by (induction w) (auto simp: scan_nonsp)

lemma collapse_words:
  "NL \<notin> set t \<Longrightarrow>
     sub_spaces (scan_trailing (dropWhile (\<lambda>x. x = SP) t)) = join_sp (words_of t)"
proof (induction t rule: words_of.induct)
  case 1
  then show ?case by simp
next
  case (2 c cs)
  show ?case
  proof (cases "c = SP")
    case True
    with 2 show ?thesis by simp
  next
    case False
    define w where "w = takeWhile (\<lambda>x. x \<noteq> SP) cs"
    define r where "r = dropWhile (\<lambda>x. x \<noteq> SP) cs"
    have cs: "cs = w @ r" by (simp add: w_def r_def)
    have w: "\<forall>x\<in>set w. x \<noteq> SP" by (auto simp: w_def dest: set_takeWhileD)
    have nl: "NL \<notin> set r" using "2.prems" by (auto simp: r_def dest: set_dropWhileD)
    have IH: "sub_spaces (scan_trailing (dropWhile (\<lambda>x. x = SP) r)) = join_sp (words_of r)"
      using "2.IH"(2) [OF False] nl by (simp add: r_def)
    have step: "sub_spaces (scan_trailing (c # cs)) = (c # w) @ sub_spaces (scan_trailing r)"
      using False collapse_word [OF w, of r] by (simp add: scan_nonsp cs)
    have tail: "sub_spaces (scan_trailing r) =
        (if words_of r = [] then [] else SP # join_sp (words_of r))"
    proof (cases r)
      case Nil
      then show ?thesis by simp
    next
      case (Cons x r')
      then have x: "x = SP"
        using r_def by (metis (mono_tags, lifting) hd_dropWhile list.sel(1) list.simps(3))
      have nl': "NL \<notin> set r'" using nl Cons by simp
      have d: "dropWhile (\<lambda>x. x = SP) r = dropWhile (\<lambda>x. x = SP) r'"
        using Cons x by simp
      show ?thesis
        using collapse_after_space [OF nl'] IH words_of_Nil_iff [of r] by (simp add: Cons x d)
    qed
    have "words_of (c # cs) = (c # w) # words_of r"
      using False by (simp add: w_def r_def)
    then show ?thesis
      using False step tail by (simp add: join_sp_Cons)
  qed
qed

lemma CleanQuery_body:
  "sub_spaces (sub_edges (join_sp (map sub_comment (split_nl s)))) = normal_form s"
proof -
  have m: "map sub_comment (split_nl s) = map strip_line_comment (split_nl s)"
    by (rule map_cong) (auto simp: sub_comment_strip split_nl_no_newline)
  have "NL \<notin> set (join_sp (map strip_line_comment (split_nl s)))"
    using set_join_sp [of "map strip_line_comment (split_nl s)"] strip_line_comment_subset
      split_nl_no_newline by fastforce
  then show ?thesis
    by (simp add: m sub_edges_def normal_form_def collapse_words)
qed

subsection \<open>The normal form is a fixed point\<close>

lemma has_dashes_Cons:
  "has_dashes (c # s) \<longleftrightarrow> (s \<noteq> [] \<and> c = CHR ''-'' \<and> hd s = CHR ''-'') \<or> has_dashes s"
  by (cases s) auto

lemma strip_hd: "strip_line_comment l \<noteq> [] \<Longrightarrow> hd (strip_line_comment l) = hd l"
  by (cases l rule: strip_line_comment.cases) auto

lemma strip_no_dashes: "\<not> has_dashes (strip_line_comment l)"
proof (induction l rule: strip_line_comment.induct)
  case (1 c d rest)
  then show ?case
    using strip_hd [of "d # rest"] by (auto simp: has_dashes_Cons)
qed auto

lemma strip_id: "\<not> has_dashes l \<Longrightarrow> strip_line_comment l = l"
  by (induction l rule: strip_line_comment.induct) auto

lemma has_dashes_append:
  "has_dashes (a @ b) \<longleftrightarrow>
     has_dashes a \<or> has_dashes b \<or> (a \<noteq> [] \<and> b \<noteq> [] \<and> last a = CHR ''-'' \<and> hd b = CHR ''-'')"
proof (induction a rule: has_dashes.induct)
  case (1 c d rest)
  then show ?case by auto
qed (simp, cases b, auto)

lemma no_dashes_join:
  "\<forall>l\<in>set ls. \<not> has_dashes l \<Longrightarrow> \<not> has_dashes (join_sp ls)"
  by (induction ls rule: join_sp.induct) (auto simp: has_dashes_append has_dashes_Cons)

lemma no_dashes_words:
  "\<not> has_dashes t \<Longrightarrow> w \<in> set (words_of t) \<Longrightarrow> \<not> has_dashes w"
proof (induction t rule: words_of.induct)
  case 1
  then show ?case by simp
next
  case (2 c cs)
  show ?case
  proof (cases "c = SP")
    case True
    with 2 show ?thesis by (cases cs) auto
  next
    case False
    have "c # cs = (c # takeWhile (\<lambda>x. x \<noteq> SP) cs) @ dropWhile (\<lambda>x. x \<noteq> SP) cs"
      by simp
    with "2.prems"(1) have a: "\<not> has_dashes (c # takeWhile (\<lambda>x. x \<noteq> SP) cs)"
      and b: "\<not> has_dashes (dropWhile (\<lambda>x. x \<noteq> SP) cs)"
      by (metis has_dashes_append)+
    from "2.prems"(2) False have "w = c # takeWhile (\<lambda>x. x \<noteq> SP) cs
        \<or> w \<in> set (words_of (dropWhile (\<lambda>x. x \<noteq> SP) cs))"
      by simp
    with a "2.IH"(2) [OF False b] show ?thesis by blast
  qed
qed

lemma words_of_shape:
  "w \<in> set (words_of t) \<Longrightarrow> w \<noteq> [] \<and> SP \<notin> set w \<and> set w \<subseteq> set t"
proof (induction t rule: words_of.induct)
  case 1
  then show ?case by simp
next
  case (2 c cs)
  show ?case
  proof (cases "c = SP")
    case True
    with 2 show ?thesis by auto
  next
    case False
    from "2.prems" False have "w = c # takeWhile (\<lambda>x. x \<noteq> SP) cs
        \<or> w \<in> set (words_of (dropWhile (\<lambda>x. x \<noteq> SP) cs))"
      by simp
    then show ?thesis
    proof
      assume "w = c # takeWhile (\<lambda>x. x \<noteq> SP) cs"
      with False show ?thesis by (auto dest: set_takeWhileD)
    next
      assume "w \<in> set (words_of (dropWhile (\<lambda>x. x \<noteq> SP) cs))"
      from "2.IH"(2) [OF False this] show ?thesis by (auto dest: set_dropWhileD)
    qed
  qed
qed

lemma words_of_word:
  assumes "w \<noteq> []" and "SP \<notin> set w"
  shows "words_of (w @ SP # rest) = w # words_of rest" and "words_of w = [w]"
proof -
  from assms obtain c cs where w: "w = c # cs" "c \<noteq> SP" "\<forall>x\<in>set cs. x \<noteq> SP"
    by (cases w) auto
  have "takeWhile (\<lambda>x. x \<noteq> SP) (cs @ SP # rest) = cs"
    using w(3) by (simp add: takeWhile_append2)
  moreover have "dropWhile (\<lambda>x. x \<noteq> SP) (cs @ SP # rest) = SP # rest"
    using w(3) by (simp add: dropWhile_append2)
  ultimately show "words_of (w @ SP # rest) = w # words_of rest"
    using w by simp
  have d: "dropWhile (\<lambda>x. x \<noteq> SP) cs = []"
    using w(3) by (simp add: dropWhile_eq_Nil_conv)
  show "words_of w = [w]" using w by (simp add: d)
qed

lemma words_of_join:
  "\<forall>w\<in>set ws. w \<noteq> [] \<and> SP \<notin> set w \<Longrightarrow> words_of (join_sp ws) = ws"
  by (induction ws rule: join_sp.induct) (auto simp: words_of_word)

lemma normal_form_idem: "normal_form (normal_form s) = normal_form s"
proof -
  define t where "t = join_sp (map strip_line_comment (split_nl s))"
  define ws where "ws = words_of t"
  have r: "normal_form s = join_sp ws" by (simp add: normal_form_def t_def ws_def)
  have t_nl: "NL \<notin> set t"
    unfolding t_def
    using set_join_sp [of "map strip_line_comment (split_nl s)"] strip_line_comment_subset
      split_nl_no_newline by fastforce
  have t_dd: "\<not> has_dashes t"
    unfolding t_def by (rule no_dashes_join) (auto simp: strip_no_dashes)
  have ws: "\<forall>w\<in>set ws. w \<noteq> [] \<and> SP \<notin> set w \<and> set w \<subseteq> set t \<and> \<not> has_dashes w"
    unfolding ws_def using words_of_shape no_dashes_words [OF t_dd] by blast
  have nl: "NL \<notin> set (join_sp ws)"
    using set_join_sp [of ws] ws t_nl by fastforce
  have dd: "\<not> has_dashes (join_sp ws)"
    using ws by (intro no_dashes_join) blast
  have "words_of (join_sp ws) = ws"
    using ws by (intro words_of_join) blast
  then have "normal_form (join_sp ws) = join_sp ws"
    using nl dd by (simp add: normal_form_def split_nl_single strip_id)
  with r show ?thesis by simp
qed

lemma CleanQuery_imported_idempotent:
  assumes "''re'' \<in> set G" and "CleanQuery G query = Inr r"
  shows "CleanQuery G r = Inr r"
  using assms by (auto simp: CleanQuery_def CleanQuery_body normal_form_idem)

subsection \<open>The body with the import in place\<close>

text \<open>
  What the three substitutions compute once \<^verbatim>\<open>re\<close> is bound, which it is not in the module
  as it is: the normal form, with both examples of the specification. Only
  the space character is collapsed and trimmed; tabs stay.
\<close>

lemma CleanQuery_imported_normal_form:
  assumes "''re'' \<in> set G"
  shows "CleanQuery G query = Inr (normal_form query)
     \<and> (NL \<notin> set query \<and> \<not> has_dashes query \<longrightarrow>
          CleanQuery G query = Inr (join_sp (words_of query)))
     \<and> CleanQuery G (''SELECT 1 -- comment'' @ [NL] @ ''  FROM  dual'') = Inr ''SELECT 1 FROM dual''
     \<and> CleanQuery G ''SELECT /* keep */ 1'' = Inr ''SELECT /* keep */ 1''"
proof (intro conjI impI)
  show eq: "CleanQuery G query = Inr (normal_form query)" for query
    using assms by (simp add: CleanQuery_def CleanQuery_body)
  show "CleanQuery G query = Inr (join_sp (words_of query))"
    if "NL \<notin> set query \<and> \<not> has_dashes query"
    using that by (simp add: eq normal_form_def split_nl_single strip_id)
  show "CleanQuery G (''SELECT 1 -- comment'' @ [NL] @ ''  FROM  dual'') = Inr ''SELECT 1 FROM dual''"
    by (simp add: eq normal_form_def)
  show "CleanQuery G ''SELECT /* keep */ 1'' = Inr ''SELECT /* keep */ 1''"
    by (simp add: eq normal_form_def)
qed

lemma CleanQuery_imported_keeps_tabs:
  "CleanQuery (''re'' # dbbench_globals) (''a'' @ [TAB, TAB] @ ''b'')
     = Inr (''a'' @ [TAB, TAB] @ ''b'')"
  by (simp add: CleanQuery_def sub_edges_def scan_trailing.simps(2)
      sub_comment.simps(2) match_comment_def match_trailing_def)

subsection \<open>The claims\<close>

text \<open>
  Claim C1 against the module as it is. The claim says that \<^verbatim>\<open>CleanQuery\<close> returns the
  normalized string, in particular \<^verbatim>\<open>"SELECT 1 FROM dual"\<close> for
  \<^verbatim>\<open>"SELECT 1 -- comment\n  FROM  dual"\<close> and \<^verbatim>\<open>"SELECT /* keep */ 1"\<close> unchanged. The module
  never imports \<^verbatim>\<open>re\<close>, so on both examples the call raises \<^verbatim>\<open>NameError\<close> at the first
  substitution and returns no string.
\<close>

theorem CleanQuery_examples_raise:
  "CleanQuery dbbench_globals (''SELECT 1 -- comment'' @ [NL] @ ''  FROM  dual'')
     = Inl (NameError ''re'')
   \<and> CleanQuery dbbench_globals ''SELECT /* keep */ 1'' = Inl (NameError ''re'')"
  by (simp add: CleanQuery_def dbbench_globals_def)

text \<open>
  Claim C2 against the module as it is. The module never imports \<^verbatim>\<open>re\<close>, so every call of
  \<^verbatim>\<open>CleanQuery\<close> raises \<^verbatim>\<open>NameError\<close> and returns no string: there is no normalized result to
  normalize again. (With the import in place the function is idempotent:
  \<open>CleanQuery_imported_idempotent\<close>.)
\<close>

theorem CleanQuery_raises_NameError:
  "CleanQuery dbbench_globals query = Inl (NameError ''re'')"
  by (simp add: CleanQuery_def dbbench_globals_def)

end
